theory Spec2Isabelle
  imports
    Complex_Main
    "HOL-Library.Char_ord"
    "HOL-Library.List_Lexorder"
    "HOL-Library.Product_Lexorder"
begin

section \<open>Values shared by both programs\<close>

text \<open>
  Python floats are modelled by the real numbers they denote, and the infinities are left
  out. The one special value kept is NaN, which pandas and numpy use as the marker of a
  missing cell; every arithmetic operation propagates it and every comparison with it is
  false.

  Rounding is left out except where it decides whether a function returns. The term \<open>a\<close>
  of the haversine formula lies between 0 and 1 as a real number, but the double computed
  for it can leave that interval, and then a square root fails. The rounding error of
  that term is a parameter of the model: the difference between the double that the
  expression for \<open>a\<close> evaluates to at four arguments and the real value of the
  expression.
\<close>

datatype pyfloat = Fin real | NaN

datatype py_error = ValueError | KeyError | IndexError | OverflowError | UncaughtException

type_synonym rounding = "real \<Rightarrow> real \<Rightarrow> real \<Rightarrow> real \<Rightarrow> real"

text \<open>Arithmetic without rounding error.\<close>

definition exact :: rounding where
  "exact = (\<lambda>lat1 lon1 lat2 lon2. 0)"


fun isnan :: "pyfloat \<Rightarrow> bool" where
  "isnan NaN = True"
| "isnan (Fin _) = False"

text \<open>\<^verbatim>\<open>math.radians\<close> and \<^verbatim>\<open>math.atan2\<close> of the Python standard library.\<close>

definition radians :: "real \<Rightarrow> real" where
  "radians x = x * pi / 180"

definition atan2 :: "real \<Rightarrow> real \<Rightarrow> real" where
  "atan2 y x =
     (if 0 < x then arctan (y / x)
      else if x < 0 \<and> 0 \<le> y then arctan (y / x) + pi
      else if x < 0 then arctan (y / x) - pi
      else if 0 < y then pi / 2
      else if y < 0 then - pi / 2
      else 0)"


section \<open>The live monitor: \<^verbatim>\<open>Raw/monitor.py\<close>\<close>

subsection \<open>Configuration\<close>

definition REMOTE_RX_FILE :: string where
  "REMOTE_RX_FILE = ''/mnt/rw/log/current/rx.pcap''"

definition PACKET_SIZE_BYTES :: int where
  "PACKET_SIZE_BYTES = 98"

definition POLL_INTERVAL_SEC :: int where
  "POLL_INTERVAL_SEC = 1"

definition ENTRY_SECONDS :: int where
  "ENTRY_SECONDS = 3"

definition EXIT_SECONDS :: int where
  "EXIT_SECONDS = 4"

definition PPS_WINDOW_SEC :: int where
  "PPS_WINDOW_SEC = 4"

definition MPH_FACTOR :: real where
  "MPH_FACTOR = 2.23693629"

subsection \<open>Reading the size of the remote file\<close>

text \<open>
  What \<^verbatim>\<open>sftp.stat(path)\<close> does: it returns attributes, or raises. The attribute
  \<^verbatim>\<open>st_size\<close> is \<^verbatim>\<open>None\<close> when the reply of the server carries no size.
  \<^verbatim>\<open>FileNotFoundError\<close> and \<^verbatim>\<open>PermissionError\<close> are subclasses of \<^verbatim>\<open>IOError\<close>,
  raised for the replies "no such file" and "permission denied"; the constructor
  \<open>IOError\<close> below stands for every other \<^verbatim>\<open>IOError\<close> (a socket error or timeout, any
  other failure reply), and \<open>OtherException\<close> for an exception of a class none of the
  handlers names.
\<close>

datatype stat_outcome =
    Stat "int option"
  | FileNotFoundError
  | PermissionError
  | IOError
  | SSHException
  | EOFError
  | OtherException

text \<open>
  The handlers are tried in the order of the source. The result is \<open>Inr (Some n)\<close> for a
  size, \<open>Inr None\<close> for Python's \<^verbatim>\<open>None\<close>, and \<open>Inl\<close> for an exception that leaves
  the function.
\<close>

definition get_remote_file_size ::
  "(string \<Rightarrow> stat_outcome) \<Rightarrow> string \<Rightarrow> py_error + int option" where
  "get_remote_file_size sftp path =
     (case sftp path of
        Stat st_size \<Rightarrow> Inr st_size
      | FileNotFoundError \<Rightarrow> Inr (Some 0)
      | PermissionError \<Rightarrow> Inr None
      | IOError \<Rightarrow> Inr None
      | SSHException \<Rightarrow> Inr None
      | EOFError \<Rightarrow> Inr None
      | OtherException \<Rightarrow> Inl UncaughtException)"

subsection \<open>Great-circle distance, scalar form\<close>

text \<open>
  \<^verbatim>\<open>math.sqrt\<close> raises \<^verbatim>\<open>ValueError\<close> on a negative argument, so the function
  returns only when the computed term lies between 0 and 1.
\<close>

definition haversine_m :: "rounding \<Rightarrow> real \<Rightarrow> real \<Rightarrow> real \<Rightarrow> real \<Rightarrow> py_error + real" where
  "haversine_m rnd lat1 lon1 lat2 lon2 =
     (let R = 6371000;
          phi1 = radians lat1;
          phi2 = radians lat2;
          dphi = radians (lat2 - lat1);
          dlambda = radians (lon2 - lon1);
          a = (sin (dphi / 2))\<^sup>2 + cos phi1 * cos phi2 * (sin (dlambda / 2))\<^sup>2
              + rnd lat1 lon1 lat2 lon2
      in if a < 0 \<or> 1 - a < 0 then Inl ValueError
         else (let c = 2 * atan2 (sqrt a) (sqrt (1 - a)) in Inr (R * c)))"

subsection \<open>The state of the loop and what one tick reads and writes\<close>

datatype presence = OUTSIDE | INSIDE

datatype event_kind = ENTRY | EXIT

text \<open>
  The reason string of an event is kept as data: the smoothed rate and the threshold
  that the formatted text of the source carries.
\<close>

datatype reason = Pps_for real int | Pps_zero_for int

record event_row =
  ev_timestamp :: string
  ev_type :: event_kind
  ev_reason :: reason
  ev_latitude :: "real option"
  ev_longitude :: "real option"

record metrics_row =
  row_timestamp :: string
  rx_size :: int
  row_delta_bytes :: int
  pps :: real
  pdr :: real
  row_latitude :: "real option"
  row_longitude :: "real option"
  speed_mph :: "real option"

record monitor_state =
  prev_size :: int
  state :: presence
  entry_counter :: int
  exit_counter :: int
  delta_history :: "int list"
  events_list :: "event_row list"
  last_gps_lat :: "real option"
  last_gps_lon :: "real option"
  last_gps_time :: "real option"

text \<open>
  The outside world of one pass through the loop body: the remote file system at the
  time of the size read, the clock, the fix that \<^verbatim>\<open>read_gps_from_kinematics\<close>
  returns for the sample (both coordinates or neither) and the fix it returns when it
  is called again for an event.
\<close>

record tick_env =
  sftp :: "string \<Rightarrow> stat_outcome"
  ts :: string
  now_dt :: real
  gps :: "(real \<times> real) option"
  gps_event :: "(real \<times> real) option"

definition initial_state :: "int \<Rightarrow> monitor_state" where
  "initial_state size0 =
     \<lparr> prev_size = size0, state = OUTSIDE, entry_counter = 0, exit_counter = 0,
       delta_history = [], events_list = [],
       last_gps_lat = None, last_gps_lon = None, last_gps_time = None \<rparr>"

text \<open>
  The start of \<^verbatim>\<open>main\<close> once the session is open: the first size read; \<open>None\<close>
  is the early return on a lost connection.
\<close>

definition main_start :: "(string \<Rightarrow> stat_outcome) \<Rightarrow> py_error + monitor_state option" where
  "main_start sftp0 =
     (case get_remote_file_size sftp0 REMOTE_RX_FILE of
        Inl e \<Rightarrow> Inl e
      | Inr None \<Rightarrow> Inr None
      | Inr (Some size0) \<Rightarrow> Inr (Some (initial_state size0)))"

subsection \<open>The loop body\<close>

text \<open>The sliding window: append, then drop the oldest entry when over capacity.\<close>

definition push_delta :: "int \<Rightarrow> int list \<Rightarrow> int list" where
  "push_delta delta_bytes h =
     (let h' = h @ [delta_bytes]
      in if int (length h') > PPS_WINDOW_SEC then tl h' else h')"

definition smoothed_pps :: "int list \<Rightarrow> real" where
  "smoothed_pps h =
     (let window_bytes = sum_list h
      in if PACKET_SIZE_BYTES > 0 \<and> length h > 0
         then (let window_secs = int (length h) * POLL_INTERVAL_SEC;
                   packets = real_of_int window_bytes / real_of_int PACKET_SIZE_BYTES
               in packets / real_of_int window_secs)
         else 0)"

definition window_pdr :: "int list \<Rightarrow> real" where
  "window_pdr h = (if sum_list h > 0 then 1 else 0)"

text \<open>
  The speed of the sample, from the fix of this tick and the remembered one; an error of
  the distance computation leaves the loop.
\<close>

definition tick_speed ::
  "rounding \<Rightarrow> monitor_state \<Rightarrow> (real \<times> real) option \<Rightarrow> py_error + real option" where
  "tick_speed rnd s fix =
     (case fix of
        None \<Rightarrow> Inr None
      | Some (lat, lon) \<Rightarrow>
          (case (last_gps_lat s, last_gps_lon s, last_gps_time s) of
             (Some llat, Some llon, Some _) \<Rightarrow>
               (let dt = real_of_int POLL_INTERVAL_SEC
                in if dt > 0
                   then (case haversine_m rnd llat llon lat lon of
                           Inl e \<Rightarrow> Inl e
                         | Inr dist_m \<Rightarrow>
                             (let speed_mps = dist_m / dt
                              in Inr (Some (speed_mps * MPH_FACTOR))))
                   else Inr None)
           | _ \<Rightarrow> Inr None))"

definition remember_fix :: "tick_env \<Rightarrow> monitor_state \<Rightarrow> monitor_state" where
  "remember_fix env s =
     (case gps env of
        None \<Rightarrow> s
      | Some (lat, lon) \<Rightarrow>
          s\<lparr> last_gps_lat := Some lat, last_gps_lon := Some lon,
             last_gps_time := Some (now_dt env) \<rparr>)"

definition update_counters :: "real \<Rightarrow> monitor_state \<Rightarrow> monitor_state" where
  "update_counters p s =
     (if p > 0
      then s\<lparr> entry_counter := entry_counter s + 1, exit_counter := 0 \<rparr>
      else s\<lparr> exit_counter := exit_counter s + 1, entry_counter := 0 \<rparr>)"

text \<open>
  \<^verbatim>\<open>record_event\<close>: the row goes to the events file in every case, and into the
  in-memory list of the map only when it carries a fix.
\<close>

definition record_event ::
  "string \<Rightarrow> event_kind \<Rightarrow> reason \<Rightarrow> (real \<times> real) option \<Rightarrow> monitor_state
     \<Rightarrow> monitor_state \<times> event_row" where
  "record_event timestamp kind why fix s =
     (let row = \<lparr> ev_timestamp = timestamp, ev_type = kind, ev_reason = why,
                  ev_latitude = map_option fst fix, ev_longitude = map_option snd fix \<rparr>
      in (if fix \<noteq> None then s\<lparr> events_list := events_list s @ [row] \<rparr> else s, row))"

definition transition ::
  "tick_env \<Rightarrow> real \<Rightarrow> monitor_state \<Rightarrow> monitor_state \<times> event_row option" where
  "transition env p s =
     (if state s = OUTSIDE \<and> entry_counter s \<ge> ENTRY_SECONDS
      then (let (s', row) = record_event (ts env) ENTRY (Pps_for p ENTRY_SECONDS)
                              (gps_event env) (s\<lparr> state := INSIDE \<rparr>)
            in (s'\<lparr> entry_counter := 0 \<rparr>, Some row))
      else if state s = INSIDE \<and> exit_counter s \<ge> EXIT_SECONDS
      then (let (s', row) = record_event (ts env) EXIT (Pps_zero_for EXIT_SECONDS)
                              (gps_event env) (s\<lparr> state := OUTSIDE \<rparr>)
            in (s'\<lparr> exit_counter := 0 \<rparr>, Some row))
      else (s, None))"

datatype tick_result =
    Break
  | Raise py_error
  | Continue monitor_state metrics_row "event_row option"

text \<open>
  The loop body from the computation of \<^verbatim>\<open>delta_bytes\<close> to the update of the two
  counters: the metrics row written and the state in which the transitions are decided.
  The speed is computed before the row is written, so an error of the distance
  computation leaves the loop with nothing written for the tick.
\<close>

definition sample_tick ::
  "rounding \<Rightarrow> tick_env \<Rightarrow> int \<Rightarrow> monitor_state \<Rightarrow> py_error + monitor_state \<times> metrics_row" where
  "sample_tick rnd env sz s =
     (let delta_bytes = max 0 (sz - prev_size s);
          h = push_delta delta_bytes (delta_history s);
          p = smoothed_pps h
      in case tick_speed rnd s (gps env) of
           Inl e \<Rightarrow> Inl e
         | Inr speed \<Rightarrow>
             (let row = \<lparr> row_timestamp = ts env, rx_size = sz,
                          row_delta_bytes = delta_bytes, pps = p, pdr = window_pdr h,
                          row_latitude = map_option fst (gps env),
                          row_longitude = map_option snd (gps env),
                          speed_mph = speed \<rparr>;
                  s1 = remember_fix env (s\<lparr> prev_size := sz, delta_history := h \<rparr>)
              in Inr (update_counters p s1, row)))"

definition tick :: "rounding \<Rightarrow> tick_env \<Rightarrow> monitor_state \<Rightarrow> tick_result" where
  "tick rnd env s =
     (case get_remote_file_size (sftp env) REMOTE_RX_FILE of
        Inl e \<Rightarrow> Raise e
      | Inr None \<Rightarrow> Break
      | Inr (Some sz) \<Rightarrow>
          (case sample_tick rnd env sz s of
             Inl e \<Rightarrow> Raise e
           | Inr (s2, row) \<Rightarrow>
               (let (s3, ev) = transition env (pps row) s2
                in Continue s3 row ev)))"

text \<open>
  The \<^verbatim>\<open>while True\<close> loop over a finite prefix of ticks. The result is what was
  written for each completed tick (its metrics row and its event, if any) and the state
  reached; a tick that breaks or raises ends the loop.
\<close>

fun run ::
  "rounding \<Rightarrow> monitor_state \<Rightarrow> tick_env list
     \<Rightarrow> (metrics_row \<times> event_row option) list \<times> monitor_state" where
  "run rnd s [] = ([], s)"
| "run rnd s (env # envs) =
     (case tick rnd env s of
        Break \<Rightarrow> ([], s)
      | Raise e \<Rightarrow> ([], s)
      | Continue s' row ev \<Rightarrow>
          (let (out, s'') = run rnd s' envs in ((row, ev) # out, s'')))"

subsection \<open>Observations of a run and example inputs\<close>

text \<open>The kinds of the events of a run, one entry per completed tick.\<close>

definition event_trace ::
  "rounding \<Rightarrow> monitor_state \<Rightarrow> tick_env list \<Rightarrow> event_kind option list" where
  "event_trace rnd s envs = map (\<lambda>(row, ev). map_option ev_type ev) (fst (run rnd s envs))"

text \<open>
  Observations of a run used to state its properties: the value of \<^verbatim>\<open>exit_counter\<close>
  at each completed tick right after the counters are updated (before a transition
  resets it), and whether a stretch of ticks reads sizes that never grow, so that every
  \<^verbatim>\<open>delta_bytes\<close> is 0.
\<close>

fun exit_counts :: "rounding \<Rightarrow> monitor_state \<Rightarrow> tick_env list \<Rightarrow> int list" where
  "exit_counts rnd s [] = []"
| "exit_counts rnd s (env # envs) =
     (case get_remote_file_size (sftp env) REMOTE_RX_FILE of
        Inr (Some sz) \<Rightarrow>
          (case (sample_tick rnd env sz s, tick rnd env s) of
             (Inr (s2, _), Continue s' row ev) \<Rightarrow> exit_counter s2 # exit_counts rnd s' envs
           | _ \<Rightarrow> [])
      | _ \<Rightarrow> [])"

fun zero_deltas :: "int \<Rightarrow> tick_env list \<Rightarrow> bool" where
  "zero_deltas prev [] = True"
| "zero_deltas prev (env # envs) =
     (case get_remote_file_size (sftp env) REMOTE_RX_FILE of
        Inr (Some sz) \<Rightarrow> max 0 (sz - prev) = 0 \<and> zero_deltas sz envs
      | _ \<Rightarrow> False)"

text \<open>
  Whether a sequence of event kinds alternates, starting from the given presence state:
  an \<open>EXIT\<close> only while \<open>INSIDE\<close>, an \<open>ENTRY\<close> only while \<open>OUTSIDE\<close>.
\<close>

fun alternates :: "presence \<Rightarrow> event_kind list \<Rightarrow> bool" where
  "alternates st [] = True"
| "alternates OUTSIDE (ENTRY # ks) = alternates INSIDE ks"
| "alternates INSIDE (EXIT # ks) = alternates OUTSIDE ks"
| "alternates st (k # ks) = False"

text \<open>
  The number of ticks with \<^verbatim>\<open>delta_bytes\<close> 0 after which the window holds only zeros
  (a measure for the proofs; the window is assumed to hold no negative entry).
\<close>

definition flush_ticks :: "int list \<Rightarrow> nat" where
  "flush_ticks h =
     (if sum_list h = 0 then 0
      else length (dropWhile (\<lambda>d. d = 0) (rev h)) + (nat PPS_WINDOW_SEC - length h))"

text \<open>A tick environment in which the file has the given size and no fix is available.\<close>

definition quiet_env :: "int \<Rightarrow> tick_env" where
  "quiet_env n =
     \<lparr> sftp = (\<lambda>_. Stat (Some n)), ts = '''', now_dt = 0, gps = None, gps_event = None \<rparr>"

definition absent_env :: tick_env where
  "absent_env =
     \<lparr> sftp = (\<lambda>_. FileNotFoundError), ts = '''', now_dt = 0, gps = None, gps_event = None \<rparr>"

text \<open>
  A remote file system that refuses the read with "permission denied", and one whose
  reply carries no size. An error of the connection, in the sense of the documentation
  of \<open>get_remote_file_size\<close> ("the SFTP/SSH connection is gone"), is an
  \<^verbatim>\<open>SSHException\<close>, an \<^verbatim>\<open>EOFError\<close> or an \<^verbatim>\<open>IOError\<close> other than the two replies
  "no such file" and "permission denied"; a reply of the server is none.
\<close>

definition denied_sftp :: "string \<Rightarrow> stat_outcome" where
  "denied_sftp = (\<lambda>path. PermissionError)"

definition sizeless_sftp :: "string \<Rightarrow> stat_outcome" where
  "sizeless_sftp = (\<lambda>path. Stat None)"

definition connection_error :: "stat_outcome \<Rightarrow> bool" where
  "connection_error r = (r = IOError \<or> r = SSHException \<or> r = EOFError)"

text \<open>Whether the size read of a tick returns a size: the file has one, or it is absent.\<close>

definition file_readable :: "tick_env \<Rightarrow> bool" where
  "file_readable env =
     (case sftp env REMOTE_RX_FILE of
        Stat (Some _) \<Rightarrow> True | FileNotFoundError \<Rightarrow> True | _ \<Rightarrow> False)"

text \<open>
  The fix that the loop remembers (the three \<^verbatim>\<open>last_gps\<close> variables are set together),
  the latest fix among the ticks of a stretch, and the speed written for a sample from a
  remembered fix and the fix of the tick, in miles per hour.
\<close>

definition last_fix :: "monitor_state \<Rightarrow> (real \<times> real) option" where
  "last_fix s =
     (case (last_gps_lat s, last_gps_lon s, last_gps_time s) of
        (Some llat, Some llon, Some _) \<Rightarrow> Some (llat, llon)
      | _ \<Rightarrow> None)"

fun latest_fix :: "(real \<times> real) option \<Rightarrow> tick_env list \<Rightarrow> (real \<times> real) option" where
  "latest_fix f [] = f"
| "latest_fix f (env # envs) = latest_fix (case gps env of None \<Rightarrow> f | Some g \<Rightarrow> Some g) envs"

definition speed_between ::
  "rounding \<Rightarrow> (real \<times> real) option \<Rightarrow> (real \<times> real) option \<Rightarrow> py_error + real option" where
  "speed_between rnd prior fix =
     (case (fix, prior) of
        (Some (lat, lon), Some (llat, llon)) \<Rightarrow>
          (case haversine_m rnd llat llon lat lon of
             Inl e \<Rightarrow> Inl e
           | Inr dist_m \<Rightarrow> Inr (Some (dist_m / real_of_int POLL_INTERVAL_SEC * MPH_FACTOR)))
      | _ \<Rightarrow> Inr None)"

text \<open>A tick environment in which the file has the given size and the fix is the given one.\<close>

definition fix_env :: "int \<Rightarrow> real \<Rightarrow> real \<Rightarrow> tick_env" where
  "fix_env n lat lon =
     \<lparr> sftp = (\<lambda>_. Stat (Some n)), ts = '''', now_dt = 0, gps = Some (lat, lon),
       gps_event = None \<rparr>"

text \<open>The state of the loop after three ticks in which the file grew by 98 bytes each.\<close>

definition entered :: monitor_state where
  "entered = snd (run exact (initial_state 0) [quiet_env 98, quiet_env 196, quiet_env 294])"



section \<open>The batch pipeline: \<^verbatim>\<open>Processed/analyze_loop.py\<close>\<close>

subsection \<open>numpy primitives\<close>

text \<open>Comparisons of floats: false as soon as one side is NaN.\<close>

fun pf_ge :: "pyfloat \<Rightarrow> pyfloat \<Rightarrow> bool" where
  "pf_ge (Fin x) (Fin y) = (x \<ge> y)"
| "pf_ge _ _ = False"

fun pf_le :: "pyfloat \<Rightarrow> pyfloat \<Rightarrow> bool" where
  "pf_le (Fin x) (Fin y) = (x \<le> y)"
| "pf_le _ _ = False"

fun pf_less :: "pyfloat \<Rightarrow> pyfloat \<Rightarrow> bool" where
  "pf_less (Fin x) (Fin y) = (x < y)"
| "pf_less _ _ = False"

text \<open>
  \<^verbatim>\<open>np.argmin\<close> along a row, as numpy's loop computes it: the running minimum is
  replaced by every element that is not greater or equal, which a NaN never is, and the
  scan stops at the first NaN. So the result is the index of the first NaN if there is
  one, and of the first occurrence of the minimum otherwise. The row has at least one
  element wherever it is used.
\<close>

fun argmin_loop :: "pyfloat \<Rightarrow> nat \<Rightarrow> nat \<Rightarrow> pyfloat list \<Rightarrow> nat" where
  "argmin_loop mp min_ind i [] = min_ind"
| "argmin_loop mp min_ind i (x # xs) =
     (if \<not> pf_ge x mp
      then (if isnan x then i else argmin_loop x i (Suc i) xs)
      else argmin_loop mp min_ind (Suc i) xs)"

definition np_argmin :: "pyfloat list \<Rightarrow> nat" where
  "np_argmin row =
     (case row of
        [] \<Rightarrow> 0
      | x # xs \<Rightarrow> if isnan x then 0 else argmin_loop x 0 1 xs)"

text \<open>\<^verbatim>\<open>np.min\<close> along a row: NaN if the row holds one, the least element otherwise.\<close>

definition np_min :: "pyfloat list \<Rightarrow> pyfloat" where
  "np_min row =
     (case row of
        [] \<Rightarrow> NaN
      | x # xs \<Rightarrow>
          fold (\<lambda>y m. if isnan m then m else if isnan y then y
                       else if pf_less y m then y else m) xs x)"

text \<open>\<^verbatim>\<open>np.vstack(ds).T\<close> for arrays of one length: row \<open>i\<close> holds entry \<open>i\<close> of each array.\<close>

definition vstack_T :: "pyfloat list list \<Rightarrow> pyfloat list list" where
  "vstack_T ds = map (\<lambda>i. map (\<lambda>d. d ! i) ds) [0..<length (hd ds)]"

subsection \<open>Great-circle distance, vectorized form\<close>

text \<open>
  One element of the array computation. A NaN coordinate makes every step NaN, and
  \<^verbatim>\<open>np.sqrt\<close> of a negative number is NaN, so the element is a number only when the
  computed term lies between 0 and 1.
\<close>

definition haversine_elem :: "rounding \<Rightarrow> pyfloat \<Rightarrow> pyfloat \<Rightarrow> real \<Rightarrow> real \<Rightarrow> pyfloat" where
  "haversine_elem rnd lat1 lon1 lat2 lon2 =
     (case (lat1, lon1) of
        (Fin la, Fin lo) \<Rightarrow>
          (let R = 6371000;
               lat1r = radians la;
               lon1r = radians lo;
               lat2r = radians lat2;
               lon2r = radians lon2;
               dlat = lat2r - lat1r;
               dlon = lon2r - lon1r;
               a = (sin (dlat / 2))\<^sup>2 + cos lat1r * cos lat2r * (sin (dlon / 2))\<^sup>2
                   + rnd la lo lat2 lon2
           in if a < 0 \<or> 1 - a < 0 then NaN
              else (let c = 2 * atan2 (sqrt a) (sqrt (1 - a)) in Fin (R * c)))
      | _ \<Rightarrow> NaN)"

definition haversine_m_np ::
  "rounding \<Rightarrow> pyfloat list \<Rightarrow> pyfloat list \<Rightarrow> real \<Rightarrow> real \<Rightarrow> pyfloat list" where
  "haversine_m_np rnd lat1 lon1 lat2 lon2 =
     map (\<lambda>(la, lo). haversine_elem rnd la lo lat2 lon2) (zip lat1 lon1)"


subsection \<open>Tables and references\<close>

record RSU =
  rsu_id :: string
  rsu_lat :: real
  rsu_lon :: real

text \<open>
  A telemetry table: its numeric columns by name, and the one text column the pipeline
  adds. All columns of a table have one length, the number of its rows.
\<close>

record metrics_frame =
  float_cols :: "string \<Rightarrow> pyfloat list option"
  nearest_rsu :: "string list option"

definition set_col :: "string \<Rightarrow> pyfloat list \<Rightarrow> metrics_frame \<Rightarrow> metrics_frame" where
  "set_col name v m = m\<lparr> float_cols := (float_cols m)(name \<mapsto> v) \<rparr>"

definition dist_col :: "RSU \<Rightarrow> string" where
  "dist_col r = ''dist_'' @ rsu_id r @ ''_m''"

subsection \<open>Distance features\<close>

text \<open>
  A missing coordinate column is a \<^verbatim>\<open>KeyError\<close>; \<^verbatim>\<open>np.vstack\<close> of no arrays is
  a \<^verbatim>\<open>ValueError\<close>.
\<close>

definition add_distance_features_metrics ::
  "rounding \<Rightarrow> metrics_frame \<Rightarrow> RSU list \<Rightarrow> py_error + metrics_frame" where
  "add_distance_features_metrics rnd metrics rsus =
     (case (float_cols metrics ''latitude'', float_cols metrics ''longitude'') of
        (Some lat, Some lon) \<Rightarrow>
          (let ds = map (\<lambda>r. haversine_m_np rnd lat lon (rsu_lat r) (rsu_lon r)) rsus;
               metrics1 = fold (\<lambda>r. set_col (dist_col r)
                                    (haversine_m_np rnd lat lon (rsu_lat r) (rsu_lon r)))
                               rsus metrics
           in if ds = [] then Inl ValueError
              else
                (let dist_matrix = vstack_T ds;
                     nearest_idx = map np_argmin dist_matrix;
                     metrics2 = metrics1\<lparr> nearest_rsu :=
                                   Some (map (\<lambda>i. rsu_id (rsus ! i)) nearest_idx) \<rparr>;
                     metrics3 = set_col ''dist_from_rsu_m''
                                  (map (\<lambda>(row, i). row ! i) (zip dist_matrix nearest_idx))
                                  metrics2;
                     metrics4 = (if length rsus > 1
                                 then set_col ''dist_union_m'' (map np_min dist_matrix) metrics3
                                 else metrics3)
                 in Inr metrics4))
      | _ \<Rightarrow> Inl KeyError)"

text \<open>
  The distances of sample \<open>i\<close> to each reference, in the order of the references: row
  \<open>i\<close> of the distance matrix.
\<close>

definition ref_dists ::
  "rounding \<Rightarrow> pyfloat list \<Rightarrow> pyfloat list \<Rightarrow> RSU list \<Rightarrow> nat \<Rightarrow> pyfloat list" where
  "ref_dists rnd lat lon rsus i =
     map (\<lambda>r. haversine_m_np rnd lat lon (rsu_lat r) (rsu_lon r) ! i) rsus"

subsection \<open>Range profiles\<close>

record profile_row =
  pr_nearest_rsu :: "string option"
  dist_bin_m :: real
  n_samples :: nat
  coverage_fraction :: pyfloat
  mean_delta_bytes :: pyfloat
  mean_time_since_last_pkt :: pyfloat
  dist_bin_center_m :: real

text \<open>
  \<^verbatim>\<open>(d // bin_m) * bin_m\<close>: the floor of the quotient times the width. A NaN distance
  gives NaN, and so does a width of 0 (the quotient is then infinite or NaN, and its
  product with 0 is NaN).
\<close>

definition bin_of :: "real \<Rightarrow> pyfloat \<Rightarrow> pyfloat" where
  "bin_of bin_m d =
     (case d of
        NaN \<Rightarrow> NaN
      | Fin x \<Rightarrow> if bin_m = 0 then NaN else Fin (of_int \<lfloor>x / bin_m\<rfloor> * bin_m))"

text \<open>The mean of a column over the rows of a group; pandas skips NaN.\<close>

definition col_mean :: "pyfloat list \<Rightarrow> pyfloat" where
  "col_mean vs =
     (let xs = concat (map (\<lambda>v. case v of Fin x \<Rightarrow> [x] | NaN \<Rightarrow> []) vs)
      in if xs = [] then NaN else Fin (sum_list xs / real (length xs)))"

text \<open>
  \<^verbatim>\<open>groupby(keys)\<close> with its defaults: rows whose key is missing are dropped, the
  groups come in the order of their keys, and each group keeps its rows in table
  order. The argument pairs each row index with its key, \<open>None\<close> for a missing one.
\<close>

definition keyed_rows :: "'k option list \<Rightarrow> ('k \<times> nat) list" where
  "keyed_rows keys =
     concat (map (\<lambda>(k, i). case k of None \<Rightarrow> [] | Some k' \<Rightarrow> [(k', i)])
                 (zip keys [0..<length keys]))"

definition groupby :: "('k::linorder) option list \<Rightarrow> ('k \<times> nat list) list" where
  "groupby keys =
     (let keyed = keyed_rows keys
      in map (\<lambda>k. (k, map snd (filter (\<lambda>p. fst p = k) keyed)))
             (sort (remdups (map fst keyed))))"

definition agg_row ::
  "pyfloat list \<Rightarrow> pyfloat list \<Rightarrow> pyfloat list \<Rightarrow> real
     \<Rightarrow> string option \<Rightarrow> real \<Rightarrow> nat list \<Rightarrow> profile_row" where
  "agg_row has_pkts delta_bytes time_since_last_pkt bin_m rsu b idxs =
     \<lparr> pr_nearest_rsu = rsu,
       dist_bin_m = b,
       n_samples = length idxs,
       coverage_fraction = col_mean (map (\<lambda>i. has_pkts ! i) idxs),
       mean_delta_bytes = col_mean (map (\<lambda>i. delta_bytes ! i) idxs),
       mean_time_since_last_pkt = col_mean (map (\<lambda>i. time_since_last_pkt ! i) idxs),
       dist_bin_center_m = b + bin_m / 2 \<rparr>"

definition fin_key :: "pyfloat \<Rightarrow> real option" where
  "fin_key v = (case v of Fin x \<Rightarrow> Some x | NaN \<Rightarrow> None)"

definition build_range_profile_nearest ::
  "metrics_frame \<Rightarrow> real \<Rightarrow> py_error + profile_row list" where
  "build_range_profile_nearest metrics bin_m =
     (case (float_cols metrics ''dist_from_rsu_m'', float_cols metrics ''has_pkts'',
            float_cols metrics ''delta_bytes'', float_cols metrics ''time_since_last_pkt'') of
        (Some dcol, Some has_pkts, Some delta_bytes, Some tslp) \<Rightarrow>
          (let dist_bin = map (bin_of bin_m) dcol
           in case nearest_rsu metrics of
                Some nearest \<Rightarrow>
                  if length (remdups nearest) > 1
                  then Inr (map (\<lambda>((r, b), idxs).
                                   agg_row has_pkts delta_bytes tslp bin_m (Some r) b idxs)
                              (groupby (map (\<lambda>(r, b). map_option (Pair r) (fin_key b))
                                            (zip nearest dist_bin))))
                  else Inr (map (\<lambda>(b, idxs). agg_row has_pkts delta_bytes tslp bin_m None b idxs)
                              (groupby (map fin_key dist_bin)))
              | None \<Rightarrow>
                  Inr (map (\<lambda>(b, idxs). agg_row has_pkts delta_bytes tslp bin_m None b idxs)
                         (groupby (map fin_key dist_bin))))
      | _ \<Rightarrow> Inl KeyError)"

definition build_range_profile_union ::
  "metrics_frame \<Rightarrow> real \<Rightarrow> py_error + profile_row list" where
  "build_range_profile_union metrics bin_m =
     (case float_cols metrics ''dist_union_m'' of
        None \<Rightarrow> Inl ValueError
      | Some dcol \<Rightarrow>
          (case (float_cols metrics ''has_pkts'', float_cols metrics ''delta_bytes'',
                 float_cols metrics ''time_since_last_pkt'') of
             (Some has_pkts, Some delta_bytes, Some tslp) \<Rightarrow>
               Inr (map (\<lambda>(b, idxs). agg_row has_pkts delta_bytes tslp bin_m None b idxs)
                      (groupby (map fin_key (map (bin_of bin_m) dcol))))
           | _ \<Rightarrow> Inl KeyError))"

text \<open>
  Whether a sample of the table belongs to a row of a profile, in the words of the
  specification: the sample has a distance, the row is the bin of that distance, the one
  with lower edge \<open>floor (distance / bin_m) * bin_m\<close>, and, when the rows are kept apart
  by reference, the reference of the row is the nearest reference of the sample.
\<close>

definition in_row :: "real \<Rightarrow> pyfloat list \<Rightarrow> string list \<Rightarrow> profile_row \<Rightarrow> nat \<Rightarrow> bool" where
  "in_row bin_m dcol nearest r i =
     (case dcol ! i of
        NaN \<Rightarrow> False
      | Fin x \<Rightarrow> dist_bin_m r = of_int \<lfloor>x / bin_m\<rfloor> * bin_m
                 \<and> (pr_nearest_rsu r = None \<or> pr_nearest_rsu r = Some (nearest ! i)))"

subsection \<open>The profiles that \<^verbatim>\<open>main\<close> writes\<close>

text \<open>
  The part of \<^verbatim>\<open>main\<close> that runs on the metrics table once its time features are
  computed: the distance features, the nearest profile and, only when it is requested
  and more than one reference is given, the union profile. This is the one call of
  \<open>build_range_profile_union\<close> in the program. The optional elevation and event steps
  in between do not touch the columns read here and are left out. The result is the
  nearest profile and the union profile, \<open>None\<close> when it is not built.
\<close>

definition main_profiles ::
  "rounding \<Rightarrow> metrics_frame \<Rightarrow> RSU list \<Rightarrow> real \<Rightarrow> bool
     \<Rightarrow> py_error + profile_row list \<times> profile_row list option" where
  "main_profiles rnd metrics rsus bin_m write_union_profile =
     (case add_distance_features_metrics rnd metrics rsus of
        Inl e \<Rightarrow> Inl e
      | Inr metrics' \<Rightarrow>
          (case build_range_profile_nearest metrics' bin_m of
             Inl e \<Rightarrow> Inl e
           | Inr profile_nearest \<Rightarrow>
               if write_union_profile \<and> length rsus > 1
               then (case build_range_profile_union metrics' bin_m of
                       Inl e \<Rightarrow> Inl e
                     | Inr profile_union \<Rightarrow> Inr (profile_nearest, Some profile_union))
               else Inr (profile_nearest, None)))"

subsection \<open>Example inputs\<close>

text \<open>
  A table of two samples, the first at latitude 0 and longitude 0 and the second without
  a location, and reference lists for it.
\<close>

definition demo_metrics :: metrics_frame where
  "demo_metrics =
     \<lparr> float_cols = [''latitude'' \<mapsto> [Fin 0, NaN], ''longitude'' \<mapsto> [Fin 0, NaN],
                     ''has_pkts'' \<mapsto> [Fin 1, Fin 0], ''delta_bytes'' \<mapsto> [Fin 98, Fin 0],
                     ''time_since_last_pkt'' \<mapsto> [Fin 0, Fin 1]],
       nearest_rsu = None \<rparr>"

definition demo_rsus :: "RSU list" where
  "demo_rsus = [\<lparr> rsu_id = ''RSU1'', rsu_lat = 0, rsu_lon = 0 \<rparr>,
                \<lparr> rsu_id = ''RSU2'', rsu_lat = 0, rsu_lon = 90 \<rparr>]"


definition one_rsu :: "RSU list" where
  "one_rsu = [\<lparr> rsu_id = ''RSU1'', rsu_lat = 0, rsu_lon = 0 \<rparr>]"



text \<open>
  An enhanced table of four samples at 10 m, 60 m and 120 m from their nearest reference
  and one without a distance.
\<close>

definition demo_enhanced :: metrics_frame where
  "demo_enhanced =
     \<lparr> float_cols = [''dist_from_rsu_m'' \<mapsto> [Fin 10, Fin 60, Fin 120, NaN],
                     ''has_pkts'' \<mapsto> [Fin 1, Fin 1, Fin 1, Fin 0],
                     ''delta_bytes'' \<mapsto> [Fin 98, Fin 196, Fin 98, Fin 0],
                     ''time_since_last_pkt'' \<mapsto> [Fin 0, Fin 0, Fin 0, Fin 1]],
       nearest_rsu = Some [''RSU1'', ''RSU1'', ''RSU1'', ''RSU1''] \<rparr>"



subsection \<open>Timeline repair\<close>

text \<open>
  A timestamp is a number of nanoseconds since 1970-01-01 00:00:00, the resolution of
  pandas, held in a signed 64-bit integer; the least 64-bit integer is not a timestamp
  but the marker \<^verbatim>\<open>NaT\<close>. The argument of \<open>parse_timestamp_series\<close> is the series
  that \<^verbatim>\<open>pd.to_datetime(ts, errors="coerce")\<close> returns: \<open>None\<close> is \<^verbatim>\<open>NaT\<close>, a value
  that did not parse, and every other entry lies within the 64-bit range.
\<close>

type_synonym timestamp = int

definition INT64_MAX :: int where
  "INT64_MAX = 2 ^ 63 - 1"

text \<open>The value that 64-bit two's complement arithmetic leaves of an integer.\<close>

definition wrap64 :: "int \<Rightarrow> int" where
  "wrap64 x = (x + 2 ^ 63) mod 2 ^ 64 - 2 ^ 63"

text \<open>
  The pandas primitives used: comparison of a float with a constant, the mean of a
  boolean series (NaN for an empty one), \<^verbatim>\<open>dropna\<close>, \<^verbatim>\<open>sort_values\<close> (missing values
  last), \<^verbatim>\<open>diff().dt.total_seconds()\<close> and \<^verbatim>\<open>median\<close>. The differences are taken
  in 64-bit arithmetic, which wraps around; the first entry, every difference with a
  missing value and a difference that wraps to the marker \<^verbatim>\<open>NaT\<close> are NaN.
\<close>

definition pf_gt :: "pyfloat \<Rightarrow> real \<Rightarrow> bool" where
  "pf_gt v c = (case v of Fin x \<Rightarrow> x > c | NaN \<Rightarrow> False)"

definition bool_mean :: "bool list \<Rightarrow> pyfloat" where
  "bool_mean bs =
     (if bs = [] then NaN else Fin (real (length (filter (\<lambda>b. b) bs)) / real (length bs)))"

definition dropna :: "'a option list \<Rightarrow> 'a list" where
  "dropna xs = concat (map (\<lambda>x. case x of None \<Rightarrow> [] | Some v \<Rightarrow> [v]) xs)"

definition dropna_f :: "pyfloat list \<Rightarrow> real list" where
  "dropna_f xs = concat (map (\<lambda>x. case x of NaN \<Rightarrow> [] | Fin v \<Rightarrow> [v]) xs)"

definition sort_values :: "timestamp option list \<Rightarrow> timestamp option list" where
  "sort_values t =
     map Some (sort (dropna t)) @ replicate (length (filter (\<lambda>x. x = None) t)) None"

fun pair_diffs :: "timestamp option list \<Rightarrow> pyfloat list" where
  "pair_diffs (a # b # xs) =
     (case (a, b) of
        (Some a', Some b') \<Rightarrow>
          (let d = wrap64 (b' - a')
           in if d = - (2 ^ 63) then NaN else Fin (real_of_int d / 1000000000))
      | _ \<Rightarrow> NaN) # pair_diffs (b # xs)"
| "pair_diffs xs = []"

definition diff_seconds :: "timestamp option list \<Rightarrow> pyfloat list" where
  "diff_seconds xs = (if xs = [] then [] else NaN # pair_diffs xs)"

definition median :: "real list \<Rightarrow> pyfloat" where
  "median xs =
     (let s = sort xs; n = length xs
      in if n = 0 then NaN
         else if odd n then Fin (s ! (n div 2))
         else Fin ((s ! (n div 2 - 1) + s ! (n div 2)) / 2))"

text \<open>
  \<^verbatim>\<open>base + pd.to_timedelta(np.arange(n), unit="s")\<close>: steps of one second from the
  base. pandas checks both operations for overflow: the conversion of the seconds to
  nanoseconds and the addition to the base raise (\<^verbatim>\<open>OverflowError\<close> or one of the
  out-of-bounds errors of pandas, all written \<open>OverflowError\<close> here) when a result leaves
  the 64-bit range. The steps increase, so the last one decides.
\<close>

definition one_hz_steps :: "timestamp \<Rightarrow> nat \<Rightarrow> timestamp option list" where
  "one_hz_steps base n = map (\<lambda>i. Some (base + int i * 1000000000)) [0..<n]"

definition one_hz_fits :: "timestamp \<Rightarrow> nat \<Rightarrow> bool" where
  "one_hz_fits base n =
     (n = 0 \<or> (int (n - 1) * 1000000000 \<le> INT64_MAX
               \<and> base + int (n - 1) * 1000000000 \<le> INT64_MAX))"

definition one_hz :: "timestamp \<Rightarrow> nat \<Rightarrow> py_error + timestamp option list" where
  "one_hz base n = (if one_hz_fits base n then Inr (one_hz_steps base n) else Inl OverflowError)"

definition parse_timestamp_series :: "timestamp option list \<Rightarrow> py_error + timestamp option list" where
  "parse_timestamp_series t =
     (if pf_gt (bool_mean (map (\<lambda>x. x = None) t)) (1 / 2)
      then one_hz 0 (length t)
      else
        (let diffs = dropna_f (diff_seconds (sort_values t))
         in if length diffs > 0
            then (let zero_frac = bool_mean (map (\<lambda>d. d = 0) diffs);
                      med = median diffs
                  in if pf_gt zero_frac 0.2 \<or> med = Fin 0
                     then (case dropna t of
                             [] \<Rightarrow> Inl IndexError
                           | base # _ \<Rightarrow> one_hz base (length t))
                     else Inr t)
            else Inr t))"

text \<open>
  The case analysis in the words of the specification: more than half of the values
  failed to parse; otherwise the consecutive differences of the parsed timestamps, taken
  in time order and in seconds, have more than 20% exact zeros or a median of exactly
  zero; otherwise the timestamps are usable as they are. The rebuilt timeline is the
  one-second-step sequence where it fits the range of timestamps.
\<close>

definition spec_consecutive_diffs :: "timestamp option list \<Rightarrow> real list" where
  "spec_consecutive_diffs t =
     (let s = sort (dropna t)
      in map (\<lambda>(a, b). real_of_int (b - a) / 1000000000) (zip s (tl s)))"

definition spec_unparseable :: "timestamp option list \<Rightarrow> bool" where
  "spec_unparseable t = (2 * length (filter (\<lambda>x. x = None) t) > length t)"

definition spec_coarse :: "timestamp option list \<Rightarrow> bool" where
  "spec_coarse t =
     (let ds = spec_consecutive_diffs t
      in ds \<noteq> [] \<and> (5 * length (filter (\<lambda>d. d = 0) ds) > length ds \<or> median ds = Fin 0))"

definition spec_timeline_repair :: "timestamp option list \<Rightarrow> py_error + timestamp option list" where
  "spec_timeline_repair t =
     (if spec_unparseable t then one_hz 0 (length t)
      else if spec_coarse t then one_hz (hd (dropna t)) (length t)
      else Inr t)"

text \<open>
  The parsed timestamps of a series lie less than \<open>2\<^sup>6\<^sup>3\<close> nanoseconds (about 292 years)
  apart, so that no difference of two of them wraps around.
\<close>

definition span_ok :: "timestamp option list \<Rightarrow> bool" where
  "span_ok t = (\<forall>a\<in>set (dropna t). \<forall>b\<in>set (dropna t). b - a < 2 ^ 63)"

text \<open>Every row has a timestamp and the timestamps strictly increase along the rows.\<close>

definition strictly_ordered :: "timestamp option list \<Rightarrow> bool" where
  "strictly_ordered stamps =
     (list_all (\<lambda>x. x \<noteq> None) stamps \<and> sorted_wrt (<) (dropna stamps))"



subsection \<open>Elevation\<close>

text \<open>
  A rounded coordinate pair is the key of the cache and the argument of a query. What the
  resolver does to the outside world is kept as a log: each call of
  \<^verbatim>\<open>fetch_elevation_point_epqs\<close> and each \<^verbatim>\<open>time.sleep\<close>, in order.
\<close>

type_synonym coord = "pyfloat \<times> pyfloat"

datatype io_event = Query coord | Sleep real

text \<open>
  \<^verbatim>\<open>Series.round(decimals)\<close>: to the nearest multiple, ties to the even one; NaN stays.
  The scaled value is the real product here; in double arithmetic a coordinate whose
  scaled value rounds onto a tie, or off one, gets the neighbouring key.
\<close>

definition round_half_even :: "real \<Rightarrow> int" where
  "round_half_even x =
     (let f = \<lfloor>x\<rfloor>; r = x - of_int f
      in if r < 1 / 2 then f else if r > 1 / 2 then f + 1 else if even f then f else f + 1)"

definition np_round :: "int \<Rightarrow> pyfloat \<Rightarrow> pyfloat" where
  "np_round decimals v =
     (case v of
        NaN \<Rightarrow> NaN
      | Fin x \<Rightarrow>
          if decimals \<ge> 0
          then Fin (of_int (round_half_even (x * 10 ^ nat decimals)) / 10 ^ nat decimals)
          else Fin (of_int (round_half_even (x / 10 ^ nat (- decimals))) * 10 ^ nat (- decimals)))"

text \<open>\<^verbatim>\<open>drop_duplicates()\<close> keeps the first occurrence of every row, in table order.\<close>

definition drop_duplicates :: "'a list \<Rightarrow> 'a list" where
  "drop_duplicates xs = rev (remdups (rev xs))"

text \<open>
  The cache is a dictionary keyed by pairs of floats. A key with a NaN in it is never
  found again, since NaN differs from itself: \<^verbatim>\<open>key not in cache\<close> is true and
  \<^verbatim>\<open>elev_map.get(key, np.nan)\<close> gives the default.
\<close>

definition cache_has :: "(coord \<Rightarrow> pyfloat option) \<Rightarrow> coord \<Rightarrow> bool" where
  "cache_has cache key = (\<not> isnan (fst key) \<and> \<not> isnan (snd key) \<and> cache key \<noteq> None)"

definition cache_get :: "(coord \<Rightarrow> pyfloat option) \<Rightarrow> coord \<Rightarrow> pyfloat" where
  "cache_get cache key =
     (if isnan (fst key) \<or> isnan (snd key) then NaN
      else case cache key of None \<Rightarrow> NaN | Some e \<Rightarrow> e)"

text \<open>
  The elevation service is any function from a key and the number of the attempt for
  that key (1, 2, ...) to the elevation returned, or \<open>None\<close> when
  \<^verbatim>\<open>fetch_elevation_point_epqs\<close> raises (no \<^verbatim>\<open>requests\<close> module, a failed request, an
  unrecognised body). \<open>attempts\<close> is the loop \<^verbatim>\<open>for attempt in range(1, max_retries + 1)\<close>
  from the given attempt number with the given number of iterations left; it returns the
  elevation, if any, and what it did.
\<close>

fun attempts ::
  "(coord \<Rightarrow> nat \<Rightarrow> pyfloat option) \<Rightarrow> coord \<Rightarrow> nat \<Rightarrow> nat \<Rightarrow> pyfloat option \<times> io_event list" where
  "attempts svc key attempt 0 = (None, [])"
| "attempts svc key attempt (Suc n) =
     (case svc key attempt of
        Some e \<Rightarrow> (Some e, [Query key])
      | None \<Rightarrow>
          (let (r, evs) = attempts svc key (Suc attempt) n
           in (r, Query key # Sleep (0.4 * real attempt) # evs)))"

text \<open>The body of the loop over the missing keys.\<close>

definition resolve_point ::
  "(coord \<Rightarrow> nat \<Rightarrow> pyfloat option) \<Rightarrow> int \<Rightarrow> real \<Rightarrow> coord
     \<Rightarrow> (coord \<Rightarrow> pyfloat option) \<times> io_event list
     \<Rightarrow> (coord \<Rightarrow> pyfloat option) \<times> io_event list" where
  "resolve_point svc max_retries sleep_s key st =
     (let (cache, lg) = st;
          (r, evs) = attempts svc key 1 (nat max_retries);
          cache' = (case r of Some e \<Rightarrow> cache(key \<mapsto> e) | None \<Rightarrow> cache(key \<mapsto> NaN))
      in (cache', lg @ evs @ [Sleep sleep_s]))"

text \<open>
  The result: the new column, and with it the cache that is saved and the log. The table
  is given by its coordinate columns, \<open>None\<close> when one of them does not exist; the cache
  argument is what \<^verbatim>\<open>load_elev_cache\<close> returned, the empty map without a cache file.
\<close>

record elevation_result =
  elevation_m :: "pyfloat list"
  cache_out :: "coord \<Rightarrow> pyfloat option"
  io_log :: "io_event list"

definition rounded_keys :: "int \<Rightarrow> coord list \<Rightarrow> coord list" where
  "rounded_keys round_decimals pts =
     map (\<lambda>(la, lo). (np_round round_decimals la, np_round round_decimals lo)) pts"

definition missing_keys :: "(coord \<Rightarrow> pyfloat option) \<Rightarrow> coord list \<Rightarrow> coord list" where
  "missing_keys cache keys = filter (\<lambda>key. \<not> cache_has cache key) (drop_duplicates keys)"

definition add_elevation_column ::
  "(coord \<Rightarrow> nat \<Rightarrow> pyfloat option) \<Rightarrow> coord list option \<Rightarrow> int \<Rightarrow> real
     \<Rightarrow> (coord \<Rightarrow> pyfloat option) \<Rightarrow> int \<Rightarrow> py_error + elevation_result" where
  "add_elevation_column svc df round_decimals sleep_s cache0 max_retries =
     (case df of
        None \<Rightarrow> Inl ValueError
      | Some pts \<Rightarrow>
          (let tmp = rounded_keys round_decimals pts;
               missing = missing_keys cache0 tmp;
               (cache, lg) = fold (resolve_point svc max_retries sleep_s) missing (cache0, [])
           in Inr \<lparr> elevation_m = map (cache_get cache) tmp, cache_out = cache, io_log = lg \<rparr>))"

text \<open>How many attempts for a key fail before the first success, among the first \<open>n\<close> from \<open>a\<close>.\<close>

definition failed_attempts :: "(coord \<Rightarrow> nat \<Rightarrow> pyfloat option) \<Rightarrow> coord \<Rightarrow> nat \<Rightarrow> nat \<Rightarrow> nat" where
  "failed_attempts svc key a n = length (takeWhile (\<lambda>j. svc key j = None) [a..<a + n])"


text \<open>
  Two points that round to one key at five decimals, a service that always answers and
  one that never does.
\<close>

definition demo_points :: "coord list" where
  "demo_points = [(Fin 36.000001, Fin (-97)), (Fin 36.000004, Fin (-97))]"

definition svc_up :: "coord \<Rightarrow> nat \<Rightarrow> pyfloat option" where
  "svc_up key j = Some (Fin 300)"

definition svc_down :: "coord \<Rightarrow> nat \<Rightarrow> pyfloat option" where
  "svc_down key j = None"


section \<open>Theorems\<close>

subsection \<open>The haversine term\<close>

lemma radians_diff: "radians x - radians y = radians (x - y)"
  by (simp add: radians_def left_diff_distrib diff_divide_distrib)


lemma cos_product:
  fixes p q :: real
  shows "cos p * cos q = (cos ((p + q) / 2))\<^sup>2 - (sin ((q - p) / 2))\<^sup>2"
proof -
  define m where "m = (p + q) / 2"
  define u where "u = (q - p) / 2"
  have p: "p = m - u" and q: "q = m + u" by (simp_all add: m_def u_def field_simps)
  have "cos (m - u) * cos (m + u) = (cos m * cos u)\<^sup>2 - (sin m * sin u)\<^sup>2"
    by (simp add: cos_add cos_diff power2_eq_square algebra_simps)
  also have "\<dots> = (cos m)\<^sup>2 * (1 - (sin u)\<^sup>2) - (1 - (cos m)\<^sup>2) * (sin u)\<^sup>2"
    by (simp add: power_mult_distrib cos_squared_eq [of u] sin_squared_eq [of m])
  also have "\<dots> = (cos m)\<^sup>2 - (sin u)\<^sup>2"
    by (simp add: algebra_simps)
  finally show ?thesis unfolding p q m_def [symmetric] u_def [symmetric] by simp
qed

text \<open>As a real number the term of the formula lies between 0 and 1, whatever the points.\<close>

lemma haversine_term_bounds:
  fixes p q l :: real
  defines "a \<equiv> (sin ((q - p) / 2))\<^sup>2 + cos p * cos q * (sin l)\<^sup>2"
  shows "0 \<le> a" and "a \<le> 1"
proof -
  define su where "su = (sin ((q - p) / 2))\<^sup>2"
  define cm where "cm = (cos ((p + q) / 2))\<^sup>2"
  define sl where "sl = (sin l)\<^sup>2"
  have b: "0 \<le> su" "su \<le> 1" "0 \<le> cm" "cm \<le> 1" "0 \<le> sl" "sl \<le> 1"
    by (simp_all add: su_def cm_def sl_def abs_square_le_1)
  have a: "a = su * (1 - sl) + cm * sl"
    unfolding a_def cos_product [of p q] su_def cm_def sl_def by (simp add: algebra_simps)
  have "0 \<le> su * (1 - sl)" "0 \<le> cm * sl" using b by simp_all
  then show "0 \<le> a" unfolding a by simp
  have "1 - a = (1 - su) * (1 - sl) + (1 - cm) * sl" unfolding a by (simp add: algebra_simps)
  moreover have "0 \<le> (1 - su) * (1 - sl)" "0 \<le> (1 - cm) * sl" using b by simp_all
  ultimately show "a \<le> 1" by simp
qed

lemma haversine_m_exact:
  "haversine_m exact lat1 lon1 lat2 lon2 =
     Inr (6371000 * (2 * atan2
        (sqrt ((sin (radians (lat2 - lat1) / 2))\<^sup>2
               + cos (radians lat1) * cos (radians lat2) * (sin (radians (lon2 - lon1) / 2))\<^sup>2))
        (sqrt (1 - ((sin (radians (lat2 - lat1) / 2))\<^sup>2
               + cos (radians lat1) * cos (radians lat2) * (sin (radians (lon2 - lon1) / 2))\<^sup>2)))))"
proof -
  have "radians (lat2 - lat1) = radians lat2 - radians lat1" by (simp add: radians_diff)
  with haversine_term_bounds [where p = "radians lat1" and q = "radians lat2"
        and l = "radians (lon2 - lon1) / 2"]
  show ?thesis by (simp add: haversine_m_def exact_def Let_def not_less)
qed

lemma haversine_m_exact_returns: "\<exists>d. haversine_m exact lat1 lon1 lat2 lon2 = Inr d"
  by (simp add: haversine_m_exact)

lemma haversine_m_same: "rnd lat lon lat lon = 0 \<Longrightarrow> haversine_m rnd lat lon lat lon = Inr 0"
  by (simp add: haversine_m_def radians_def atan2_def)


subsection \<open>The monitor loop\<close>

lemma tick_speed_exact: "\<exists>v. tick_speed exact s g = Inr v"
proof (cases g)
  case None
  then show ?thesis by (simp add: tick_speed_def)
next
  case (Some p)
  obtain lat lon where p: "p = (lat, lon)" by (cases p)
  show ?thesis
  proof (cases "last_gps_lat s")
    case None
    then show ?thesis using Some p by (simp add: tick_speed_def)
  next
    case la: (Some llat)
    show ?thesis
    proof (cases "last_gps_lon s")
      case None
      then show ?thesis using Some p la by (simp add: tick_speed_def)
    next
      case lo: (Some llon)
      show ?thesis
      proof (cases "last_gps_time s")
        case None
        then show ?thesis using Some p la lo by (simp add: tick_speed_def)
      next
        case tm: (Some tm)
        from haversine_m_exact_returns [of llat llon lat lon] obtain d where
          "haversine_m exact llat llon lat lon = Inr d" by blast
        then show ?thesis using Some p la lo tm by (simp add: tick_speed_def Let_def)
      qed
    qed
  qed
qed

lemma sample_tick_exact: "\<exists>s2 row. sample_tick exact env sz s = Inr (s2, row)"
proof -
  from tick_speed_exact [of s "gps env"] obtain v where "tick_speed exact s (gps env) = Inr v"
    by blast
  then show ?thesis by (simp add: sample_tick_def Let_def)
qed

lemma tick_Continue:
  "tick rnd env s = Continue s' row ev \<Longrightarrow>
     \<exists>sz s2. get_remote_file_size (sftp env) REMOTE_RX_FILE = Inr (Some sz)
        \<and> sample_tick rnd env sz s = Inr (s2, row)
        \<and> transition env (pps row) s2 = (s', ev)"
  by (auto simp: tick_def Let_def split: sum.splits option.splits prod.splits)

lemma tick_exact:
  assumes "get_remote_file_size (sftp env) REMOTE_RX_FILE = Inr (Some sz)"
  shows "\<exists>s' row ev. tick exact env s = Continue s' row ev"
proof -
  from sample_tick_exact [of env sz s] obtain s2 row where
    "sample_tick exact env sz s = Inr (s2, row)" by blast
  with assms show ?thesis by (simp add: tick_def Let_def split: prod.splits)
qed

lemma tick_readable:
  assumes "file_readable env"
  shows "\<exists>s' row ev. tick exact env s = Continue s' row ev"
proof -
  from assms obtain sz where "get_remote_file_size (sftp env) REMOTE_RX_FILE = Inr (Some sz)"
    by (auto simp: file_readable_def get_remote_file_size_def
        split: stat_outcome.splits option.splits)
  then show ?thesis by (rule tick_exact)
qed

lemma run_Continue:
  "tick rnd env s = Continue s' row ev \<Longrightarrow>
     run rnd s (env # envs) = ((row, ev) # fst (run rnd s' envs), snd (run rnd s' envs))"
  by (simp split: prod.splits)

lemma run_readable_length:
  "list_all file_readable envs \<Longrightarrow> length (fst (run exact s envs)) = length envs"
proof (induction envs arbitrary: s)
  case Nil
  then show ?case by simp
next
  case (Cons env envs)
  from Cons.prems have "file_readable env" by simp
  then obtain s' row ev where t: "tick exact env s = Continue s' row ev"
    using tick_readable by blast
  from Cons have "length (fst (run exact s' envs)) = length envs" by simp
  with t show ?case by (simp add: run_Continue del: run.simps)
qed

lemma remember_fix_sftp: "remember_fix (env\<lparr> sftp := f \<rparr>) s = remember_fix env s"
  by (simp add: remember_fix_def split: option.splits)

lemma sample_tick_sftp: "sample_tick rnd (env\<lparr> sftp := f \<rparr>) sz s = sample_tick rnd env sz s"
  by (cases "tick_speed rnd s (gps env)") (simp_all add: sample_tick_def remember_fix_sftp Let_def)

lemma transition_sftp: "transition (env\<lparr> sftp := f \<rparr>) p s = transition env p s"
  by (simp add: transition_def)

text \<open>
  C10, as the code has it. For every path, \<open>get_remote_file_size\<close> returns 0, not a
  failure, when the remote file does not exist. It returns \<^verbatim>\<open>None\<close> on every other
  \<^verbatim>\<open>IOError\<close>, a permission error among them, on \<^verbatim>\<open>SSHException\<close> and on
  \<^verbatim>\<open>EOFError\<close>, and also when the reply carries no size, and in no other case. An
  absent receive-buffer file does not stop \<^verbatim>\<open>main\<close> at its first read, and a tick
  that finds the file absent never breaks the loop: it does what a tick does that finds
  an empty file, so it writes a sample with size 0 unless the distance computation of
  that tick raises. Without rounding error a run whose file is at every tick present or
  absent completes every tick.
\<close>

theorem get_remote_file_size_zero_when_absent:
  "(sftp0 path = FileNotFoundError \<longrightarrow> get_remote_file_size sftp0 path = Inr (Some 0))
   \<and> (get_remote_file_size sftp0 path = Inr None
        \<longleftrightarrow> sftp0 path \<in> {Stat None, PermissionError, IOError, SSHException, EOFError})
   \<and> (sftp0 REMOTE_RX_FILE = FileNotFoundError
        \<longrightarrow> main_start sftp0 = Inr (Some (initial_state 0)))
   \<and> (sftp env REMOTE_RX_FILE = FileNotFoundError
        \<longrightarrow> tick rnd env s \<noteq> Break
            \<and> tick rnd env s = tick rnd (env\<lparr> sftp := (\<lambda>p. Stat (Some 0)) \<rparr>) s
            \<and> (case tick rnd env s of
                 Continue s' row ev \<Rightarrow> rx_size row = 0
               | Raise e \<Rightarrow> tick_speed rnd s (gps env) = Inl e
               | Break \<Rightarrow> False))
   \<and> (list_all file_readable envs \<longrightarrow> length (fst (run exact s envs)) = length envs)"
proof (intro conjI impI)
  show "get_remote_file_size sftp0 path = Inr (Some 0)" if "sftp0 path = FileNotFoundError"
    using that by (simp add: get_remote_file_size_def)
  show "get_remote_file_size sftp0 path = Inr None
          \<longleftrightarrow> sftp0 path \<in> {Stat None, PermissionError, IOError, SSHException, EOFError}"
    by (cases "sftp0 path") (simp_all add: get_remote_file_size_def)
  show "main_start sftp0 = Inr (Some (initial_state 0))"
    if "sftp0 REMOTE_RX_FILE = FileNotFoundError"
    using that by (simp add: main_start_def get_remote_file_size_def)
  show "tick rnd env s \<noteq> Break" if "sftp env REMOTE_RX_FILE = FileNotFoundError"
    using that
    by (simp add: tick_def get_remote_file_size_def Let_def split: prod.splits sum.splits)
  show "tick rnd env s = tick rnd (env\<lparr> sftp := (\<lambda>p. Stat (Some 0)) \<rparr>) s"
    if "sftp env REMOTE_RX_FILE = FileNotFoundError"
    using that
    by (cases "sample_tick rnd env 0 s")
      (auto simp: tick_def get_remote_file_size_def sample_tick_sftp transition_sftp)
  show "case tick rnd env s of
          Continue s' row ev \<Rightarrow> rx_size row = 0
        | Raise e \<Rightarrow> tick_speed rnd s (gps env) = Inl e
        | Break \<Rightarrow> False"
    if "sftp env REMOTE_RX_FILE = FileNotFoundError"
    using that
    by (auto simp: tick_def get_remote_file_size_def sample_tick_def Let_def
        split: prod.splits sum.splits)
  show "length (fst (run exact s envs)) = length envs" if "list_all file_readable envs"
    using that by (rule run_readable_length)
qed

theorem get_remote_file_size_zero_when_absent_witness:
  "get_remote_file_size (sftp absent_env) REMOTE_RX_FILE = Inr (Some 0)
   \<and> main_start (sftp absent_env) = Inr (Some (initial_state 0))
   \<and> tick exact absent_env (initial_state 0) \<noteq> Break
   \<and> tick exact absent_env (initial_state 0) = tick exact (quiet_env 0) (initial_state 0)
   \<and> length (fst (run exact (initial_state 0) [absent_env, quiet_env 98, absent_env])) = 3"
proof -
  have a: "sftp absent_env REMOTE_RX_FILE = FileNotFoundError"
    by (simp add: absent_env_def)
  have q: "absent_env\<lparr> sftp := (\<lambda>p. Stat (Some 0)) \<rparr> = quiet_env 0"
    by (simp add: absent_env_def quiet_env_def)
  have r: "list_all file_readable [absent_env, quiet_env 98, absent_env]"
    by (simp add: file_readable_def absent_env_def quiet_env_def)
  have l: "length [absent_env, quiet_env 98, absent_env] = 3" by simp
  show ?thesis
    using get_remote_file_size_zero_when_absent
            [of "sftp absent_env" REMOTE_RX_FILE absent_env exact "initial_state 0"
                "[absent_env, quiet_env 98, absent_env]", unfolded q l] a r
    by blast
qed

text \<open>
  C10 as stated fails in its second part: the null signal is also returned when the
  server refuses the read with "permission denied" and when its reply carries no size,
  and neither is an error of the connection.
\<close>

theorem null_signal_without_connection_error:
  "get_remote_file_size denied_sftp REMOTE_RX_FILE = Inr None
   \<and> \<not> connection_error (denied_sftp REMOTE_RX_FILE)
   \<and> get_remote_file_size sizeless_sftp REMOTE_RX_FILE = Inr None
   \<and> \<not> connection_error (sizeless_sftp REMOTE_RX_FILE)"
  by (simp add: get_remote_file_size_def denied_sftp_def sizeless_sftp_def connection_error_def)


lemma smoothed_pps_pos: "(smoothed_pps h > 0) = (sum_list h > 0)"
  by (cases h) (auto simp: smoothed_pps_def PACKET_SIZE_BYTES_def POLL_INTERVAL_SEC_def Let_def
      zero_less_divide_iff)

lemma remember_fix_fields [simp]:
  "state (remember_fix env s) = state s"
  "entry_counter (remember_fix env s) = entry_counter s"
  "exit_counter (remember_fix env s) = exit_counter s"
  "delta_history (remember_fix env s) = delta_history s"
  "prev_size (remember_fix env s) = prev_size s"
  by (simp_all add: remember_fix_def split: option.splits prod.splits)

lemma sample_tick_fields:
  assumes "sample_tick rnd env sz s = Inr (s2, row)"
  shows "state s2 = state s"
    and "delta_history s2 = push_delta (max 0 (sz - prev_size s)) (delta_history s)"
    and "prev_size s2 = sz"
    and "pps row = smoothed_pps (push_delta (max 0 (sz - prev_size s)) (delta_history s))"
    and "exit_counter s2 =
     (if sum_list (push_delta (max 0 (sz - prev_size s)) (delta_history s)) > 0 then 0
      else exit_counter s + 1)"
    and "entry_counter s2 =
     (if sum_list (push_delta (max 0 (sz - prev_size s)) (delta_history s)) > 0
      then entry_counter s + 1 else 0)"
    and "row_delta_bytes row = max 0 (sz - prev_size s)"
  using assms
  by (auto simp: sample_tick_def Let_def update_counters_def smoothed_pps_pos split: sum.splits)

lemma transition_fields:
  "delta_history (fst (transition env p s)) = delta_history s"
  "prev_size (fst (transition env p s)) = prev_size s"
  by (simp_all add: transition_def record_event_def Let_def)

lemma transition_cases:
  "transition env p s = (s', ev) \<Longrightarrow>
     (if state s = OUTSIDE \<and> entry_counter s \<ge> ENTRY_SECONDS
      then state s' = INSIDE \<and> map_option ev_type ev = Some ENTRY
           \<and> entry_counter s' = 0 \<and> exit_counter s' = exit_counter s
      else if state s = INSIDE \<and> exit_counter s \<ge> EXIT_SECONDS
      then state s' = OUTSIDE \<and> map_option ev_type ev = Some EXIT
           \<and> exit_counter s' = 0 \<and> entry_counter s' = entry_counter s
      else s' = s \<and> ev = None)"
  by (auto simp: transition_def record_event_def Let_def split: if_splits)

lemma tick_effect_of:
  assumes t: "tick rnd env s = Continue s' row ev"
  shows "\<exists>sz s2. get_remote_file_size (sftp env) REMOTE_RX_FILE = Inr (Some sz)
     \<and> sample_tick rnd env sz s = Inr (s2, row)
     \<and> delta_history s' = push_delta (max 0 (sz - prev_size s)) (delta_history s)
     \<and> prev_size s' = sz
     \<and> (let act = sum_list (push_delta (max 0 (sz - prev_size s)) (delta_history s)) > 0;
             ec = (if act then entry_counter s + 1 else 0);
             xc = (if act then 0 else exit_counter s + 1)
         in exit_counter s2 = xc
            \<and> (if state s = OUTSIDE \<and> ec \<ge> ENTRY_SECONDS
                then state s' = INSIDE \<and> map_option ev_type ev = Some ENTRY
                     \<and> entry_counter s' = 0 \<and> exit_counter s' = xc
                else if state s = INSIDE \<and> xc \<ge> EXIT_SECONDS
                then state s' = OUTSIDE \<and> map_option ev_type ev = Some EXIT
                     \<and> exit_counter s' = 0 \<and> entry_counter s' = ec
                else state s' = state s \<and> ev = None
                     \<and> entry_counter s' = ec \<and> exit_counter s' = xc))"
proof -
  from tick_Continue [OF t] obtain sz s2 where
    g: "get_remote_file_size (sftp env) REMOTE_RX_FILE = Inr (Some sz)"
    and st: "sample_tick rnd env sz s = Inr (s2, row)"
    and tr: "transition env (pps row) s2 = (s', ev)" by blast
  have f: "state s2 = state s"
    "delta_history s2 = push_delta (max 0 (sz - prev_size s)) (delta_history s)"
    "prev_size s2 = sz"
    "exit_counter s2 = (if sum_list (push_delta (max 0 (sz - prev_size s)) (delta_history s)) > 0
                        then 0 else exit_counter s + 1)"
    "entry_counter s2 = (if sum_list (push_delta (max 0 (sz - prev_size s)) (delta_history s)) > 0
                         then entry_counter s + 1 else 0)"
    using sample_tick_fields [OF st] by simp_all
  have d: "delta_history s' = delta_history s2" "prev_size s' = prev_size s2"
    using transition_fields [of env "pps row" s2] tr by simp_all
  have "delta_history s' = push_delta (max 0 (sz - prev_size s)) (delta_history s)
     \<and> prev_size s' = sz
     \<and> (let act = sum_list (push_delta (max 0 (sz - prev_size s)) (delta_history s)) > 0;
             ec = (if act then entry_counter s + 1 else 0);
             xc = (if act then 0 else exit_counter s + 1)
         in exit_counter s2 = xc
            \<and> (if state s = OUTSIDE \<and> ec \<ge> ENTRY_SECONDS
                then state s' = INSIDE \<and> map_option ev_type ev = Some ENTRY
                     \<and> entry_counter s' = 0 \<and> exit_counter s' = xc
                else if state s = INSIDE \<and> xc \<ge> EXIT_SECONDS
                then state s' = OUTSIDE \<and> map_option ev_type ev = Some EXIT
                     \<and> exit_counter s' = 0 \<and> entry_counter s' = ec
                else state s' = state s \<and> ev = None
                     \<and> entry_counter s' = ec \<and> exit_counter s' = xc))"
    using f d transition_cases [OF tr]
    by (auto simp: Let_def split: if_splits)
  with g st show ?thesis by blast
qed

lemma tick_effect_state:
  assumes t: "tick rnd env s = Continue s' row ev"
  shows "\<exists>sz. get_remote_file_size (sftp env) REMOTE_RX_FILE = Inr (Some sz)
     \<and> delta_history s' = push_delta (max 0 (sz - prev_size s)) (delta_history s)
     \<and> prev_size s' = sz
     \<and> (let act = sum_list (push_delta (max 0 (sz - prev_size s)) (delta_history s)) > 0;
             ec = (if act then entry_counter s + 1 else 0);
             xc = (if act then 0 else exit_counter s + 1)
         in (if state s = OUTSIDE \<and> ec \<ge> ENTRY_SECONDS
                then state s' = INSIDE \<and> map_option ev_type ev = Some ENTRY
                     \<and> entry_counter s' = 0 \<and> exit_counter s' = xc
                else if state s = INSIDE \<and> xc \<ge> EXIT_SECONDS
                then state s' = OUTSIDE \<and> map_option ev_type ev = Some EXIT
                     \<and> exit_counter s' = 0 \<and> entry_counter s' = ec
                else state s' = state s \<and> ev = None
                     \<and> entry_counter s' = ec \<and> exit_counter s' = xc))"
proof -
  from tick_effect_of [OF t] obtain sz s2 where
    g: "get_remote_file_size (sftp env) REMOTE_RX_FILE = Inr (Some sz)"
    and st: "sample_tick rnd env sz s = Inr (s2, row)"
    and r: "delta_history s' = push_delta (max 0 (sz - prev_size s)) (delta_history s)
     \<and> prev_size s' = sz
     \<and> (let act = sum_list (push_delta (max 0 (sz - prev_size s)) (delta_history s)) > 0;
             ec = (if act then entry_counter s + 1 else 0);
             xc = (if act then 0 else exit_counter s + 1)
         in exit_counter s2 = xc
            \<and> (if state s = OUTSIDE \<and> ec \<ge> ENTRY_SECONDS
                then state s' = INSIDE \<and> map_option ev_type ev = Some ENTRY
                     \<and> entry_counter s' = 0 \<and> exit_counter s' = xc
                else if state s = INSIDE \<and> xc \<ge> EXIT_SECONDS
                then state s' = OUTSIDE \<and> map_option ev_type ev = Some EXIT
                     \<and> exit_counter s' = 0 \<and> entry_counter s' = ec
                else state s' = state s \<and> ev = None
                     \<and> entry_counter s' = ec \<and> exit_counter s' = xc))"
    by blast
  from r have "delta_history s' = push_delta (max 0 (sz - prev_size s)) (delta_history s)
     \<and> prev_size s' = sz
     \<and> (let act = sum_list (push_delta (max 0 (sz - prev_size s)) (delta_history s)) > 0;
             ec = (if act then entry_counter s + 1 else 0);
             xc = (if act then 0 else exit_counter s + 1)
         in (if state s = OUTSIDE \<and> ec \<ge> ENTRY_SECONDS
                then state s' = INSIDE \<and> map_option ev_type ev = Some ENTRY
                     \<and> entry_counter s' = 0 \<and> exit_counter s' = xc
                else if state s = INSIDE \<and> xc \<ge> EXIT_SECONDS
                then state s' = OUTSIDE \<and> map_option ev_type ev = Some EXIT
                     \<and> exit_counter s' = 0 \<and> entry_counter s' = ec
                else state s' = state s \<and> ev = None
                     \<and> entry_counter s' = ec \<and> exit_counter s' = xc))"
    by (simp add: Let_def)
  with g show ?thesis by blast
qed

lemma tick_effect:
  assumes g: "get_remote_file_size (sftp env) REMOTE_RX_FILE = Inr (Some sz)"
  shows "\<exists>s' row ev s2. tick exact env s = Continue s' row ev
     \<and> sample_tick exact env sz s = Inr (s2, row)
     \<and> delta_history s' = push_delta (max 0 (sz - prev_size s)) (delta_history s)
     \<and> prev_size s' = sz
     \<and> (let act = sum_list (push_delta (max 0 (sz - prev_size s)) (delta_history s)) > 0;
             ec = (if act then entry_counter s + 1 else 0);
             xc = (if act then 0 else exit_counter s + 1)
         in exit_counter s2 = xc
            \<and> (if state s = OUTSIDE \<and> ec \<ge> ENTRY_SECONDS
                then state s' = INSIDE \<and> map_option ev_type ev = Some ENTRY
                     \<and> entry_counter s' = 0 \<and> exit_counter s' = xc
                else if state s = INSIDE \<and> xc \<ge> EXIT_SECONDS
                then state s' = OUTSIDE \<and> map_option ev_type ev = Some EXIT
                     \<and> exit_counter s' = 0 \<and> entry_counter s' = ec
                else state s' = state s \<and> ev = None
                     \<and> entry_counter s' = ec \<and> exit_counter s' = xc))"
proof -
  from tick_exact [OF g, of s] obtain s' row ev where
    t: "tick exact env s = Continue s' row ev" by blast
  from tick_effect_of [OF t] g t show ?thesis by auto
qed

lemma event_trace_Cons:
  "tick rnd env s = Continue s' row ev \<Longrightarrow>
     event_trace rnd s (env # envs) = map_option ev_type ev # event_trace rnd s' envs"
  by (simp add: event_trace_def run_Continue del: run.simps)

lemma exit_counts_Cons:
  "get_remote_file_size (sftp env) REMOTE_RX_FILE = Inr (Some sz) \<Longrightarrow>
   sample_tick rnd env sz s = Inr (s2, row) \<Longrightarrow>
   tick rnd env s = Continue s' row ev \<Longrightarrow>
     exit_counts rnd s (env # envs) = exit_counter s2 # exit_counts rnd s' envs"
  by simp

lemma zero_deltas_Cons:
  "zero_deltas prev (env # envs) \<Longrightarrow>
     \<exists>sz. get_remote_file_size (sftp env) REMOTE_RX_FILE = Inr (Some sz)
          \<and> max 0 (sz - prev) = 0 \<and> zero_deltas sz envs"
  by (auto split: sum.splits option.splits)

lemma push_zero_set: "set (push_delta 0 h) \<subseteq> insert 0 (set h)"
  by (cases h) (auto simp: push_delta_def Let_def)

lemma push_length: "int (length h) \<le> PPS_WINDOW_SEC \<Longrightarrow> int (length (push_delta d h)) \<le> PPS_WINDOW_SEC"
  by (auto simp: push_delta_def Let_def)

lemma sum_list_nonneg_zero:
  "\<forall>d\<in>set (h::int list). 0 \<le> d \<Longrightarrow> (sum_list h = 0) = (\<forall>d\<in>set h. d = 0)"
  by (induction h) (auto simp: add_nonneg_eq_0_iff sum_list_nonneg)

lemma all_zero_sum: "\<forall>d\<in>set h. d = 0 \<Longrightarrow> sum_list h = (0::int)"
  by (induction h) auto

lemma flush_zero: "(flush_ticks h = 0) = (sum_list h = 0)"
proof (cases "sum_list h = 0")
  case True
  then show ?thesis by (simp add: flush_ticks_def)
next
  case False
  then have "\<exists>d\<in>set (rev h). d \<noteq> 0"
    by (induction h) auto
  then have "dropWhile (\<lambda>d. d = 0) (rev h) \<noteq> []"
    by (simp add: dropWhile_eq_Nil_conv)
  with False show ?thesis by (simp add: flush_ticks_def)
qed

lemma flush_push:
  assumes nn: "\<forall>d\<in>set h. 0 \<le> d" and len: "int (length h) \<le> PPS_WINDOW_SEC"
  shows "flush_ticks (push_delta 0 h) = flush_ticks h - 1"
proof (cases "sum_list h = 0")
  case True
  then have "\<forall>d\<in>set h. d = 0" using nn by (simp add: sum_list_nonneg_zero)
  then have "\<forall>d\<in>set (push_delta 0 h). d = 0" using push_zero_set [of h] by auto
  then have "sum_list (push_delta 0 h) = 0" by (rule all_zero_sum)
  with True show ?thesis by (simp add: flush_ticks_def)
next
  case False
  show ?thesis
  proof (cases "int (length h) < PPS_WINDOW_SEC")
    case True
    then have p: "push_delta 0 h = h @ [0]" by (simp add: push_delta_def Let_def)
    from True have "Suc (nat PPS_WINDOW_SEC - Suc (length h)) = nat PPS_WINDOW_SEC - length h"
      by (simp add: PPS_WINDOW_SEC_def)
    with False p show ?thesis by (simp add: flush_ticks_def)
  next
    case False
    with len have l: "int (length h) = PPS_WINDOW_SEC" by simp
    then obtain x xs where h: "h = x # xs" by (cases h) (auto simp: PPS_WINDOW_SEC_def)
    with l have p: "push_delta 0 h = xs @ [0]" by (simp add: push_delta_def Let_def)
    show ?thesis
    proof (cases "sum_list xs = 0")
      case True
      then have z: "\<forall>d\<in>set xs. d = 0" using nn h by (simp add: sum_list_nonneg_zero)
      then have "dropWhile (\<lambda>d. d = 0) (rev xs @ [x]) = dropWhile (\<lambda>d. d = 0) [x]"
        by (simp add: dropWhile_append)
      with True p h l \<open>sum_list h \<noteq> 0\<close> show ?thesis
        by (simp add: flush_ticks_def)
    next
      case False
      then have "\<exists>d\<in>set (rev xs). d \<noteq> 0" by (induction xs) auto
      then have "dropWhile (\<lambda>d. d = 0) (rev xs @ [x]) = dropWhile (\<lambda>d. d = 0) (rev xs) @ [x]"
        by (auto simp: dropWhile_append)
      with False p h l \<open>sum_list h \<noteq> 0\<close> show ?thesis
        by (simp add: flush_ticks_def)
    qed
  qed
qed

lemma push_set: "set (push_delta d h) \<subseteq> insert d (set h)"
  by (cases h) (auto simp: push_delta_def Let_def)

lemma silent_outside:
  "state s = OUTSIDE \<Longrightarrow> \<forall>d\<in>set (delta_history s). d = 0 \<Longrightarrow>
   zero_deltas (prev_size s) envs \<Longrightarrow>
     event_trace exact s envs = replicate (length envs) None"
proof (induction envs arbitrary: s)
  case Nil
  then show ?case by (simp add: event_trace_def)
next
  case (Cons env envs)
  from zero_deltas_Cons [OF Cons.prems(3)] obtain sz where
    g: "get_remote_file_size (sftp env) REMOTE_RX_FILE = Inr (Some sz)"
    and z: "max 0 (sz - prev_size s) = 0" and zs: "zero_deltas sz envs" by blast
  have az: "\<forall>d\<in>set (push_delta 0 (delta_history s)). d = 0"
    using push_zero_set [of "delta_history s"] Cons.prems(2) by auto
  then have sm: "sum_list (push_delta 0 (delta_history s)) = 0" by (rule all_zero_sum)
  from tick_effect [OF g, of s] z sm Cons.prems(1) obtain s' row ev where
    t: "tick exact env s = Continue s' row ev"
    and h: "delta_history s' = push_delta 0 (delta_history s)"
    and p: "prev_size s' = sz" and st: "state s' = OUTSIDE" and ev: "ev = None"
    by (auto simp: Let_def ENTRY_SECONDS_def)
  have "event_trace exact s' envs = replicate (length envs) None"
    using Cons.IH [of s'] st h az p zs by simp
  with t ev show ?case by (simp add: event_trace_Cons del: run.simps)
qed

lemma exit_counts_length:
  "zero_deltas (prev_size s) envs \<Longrightarrow> length (exit_counts exact s envs) = length envs"
proof (induction envs arbitrary: s)
  case Nil
  then show ?case by simp
next
  case (Cons env envs)
  from zero_deltas_Cons [OF Cons.prems] obtain sz where
    g: "get_remote_file_size (sftp env) REMOTE_RX_FILE = Inr (Some sz)"
    and zs: "zero_deltas sz envs" by blast
  from tick_effect [OF g, of s] obtain s' row ev s2 where
    t: "tick exact env s = Continue s' row ev"
    and st: "sample_tick exact env sz s = Inr (s2, row)" and p: "prev_size s' = sz" by blast
  have "length (exit_counts exact s' envs) = length envs" using Cons.IH [of s'] p zs by simp
  then show ?case using exit_counts_Cons [OF g st t] by simp
qed

lemma exit_position:
  assumes "state s = INSIDE"
    and "\<forall>d\<in>set (delta_history s). 0 \<le> d"
    and "int (length (delta_history s)) \<le> PPS_WINDOW_SEC"
    and "0 \<le> exit_counter s" and "exit_counter s < EXIT_SECONDS"
    and "zero_deltas (prev_size s) envs"
    and "b = (if flush_ticks (delta_history s) \<le> 1 then nat (EXIT_SECONDS - exit_counter s)
              else flush_ticks (delta_history s) + 3)"
  shows "length (event_trace exact s envs) = length envs
     \<and> length (exit_counts exact s envs) = length envs
     \<and> (\<forall>j<length envs. event_trace exact s envs ! j = (if Suc j = b then Some EXIT else None))
     \<and> (\<forall>j<length envs. Suc j < b \<longrightarrow> exit_counts exact s envs ! j < EXIT_SECONDS)
     \<and> (\<forall>j<length envs. Suc j = b \<longrightarrow> exit_counts exact s envs ! j = EXIT_SECONDS)"
  using assms
proof (induction envs arbitrary: s b)
  case Nil
  then show ?case by (simp add: event_trace_def)
next
  case (Cons env envs)
  let ?h = "delta_history s"
  let ?h' = "push_delta 0 ?h"
  from zero_deltas_Cons [OF Cons.prems(6)] obtain sz where
    g: "get_remote_file_size (sftp env) REMOTE_RX_FILE = Inr (Some sz)"
    and z: "max 0 (sz - prev_size s) = 0" and zs: "zero_deltas sz envs" by blast
  have nn': "\<forall>d\<in>set ?h'. 0 \<le> d"
    using push_zero_set [of ?h] Cons.prems(2) by auto
  have len': "int (length ?h') \<le> PPS_WINDOW_SEC"
    using Cons.prems(3) by (rule push_length)
  have fl: "flush_ticks ?h' = flush_ticks ?h - 1"
    using Cons.prems(2,3) by (rule flush_push)
  from tick_effect [OF g, of s] z obtain s' row ev s2 where
    t: "tick exact env s = Continue s' row ev"
    and st: "sample_tick exact env sz s = Inr (s2, row)"
    and h: "delta_history s' = ?h'"
    and p: "prev_size s' = sz"
    and eff: "let act = sum_list ?h' > 0;
             ec = (if act then entry_counter s + 1 else 0);
             xc = (if act then 0 else exit_counter s + 1)
         in exit_counter s2 = xc
            \<and> (if state s = OUTSIDE \<and> ec \<ge> ENTRY_SECONDS
                then state s' = INSIDE \<and> map_option ev_type ev = Some ENTRY
                     \<and> entry_counter s' = 0 \<and> exit_counter s' = xc
                else if state s = INSIDE \<and> xc \<ge> EXIT_SECONDS
                then state s' = OUTSIDE \<and> map_option ev_type ev = Some EXIT
                     \<and> exit_counter s' = 0 \<and> entry_counter s' = ec
                else state s' = state s \<and> ev = None
                     \<and> entry_counter s' = ec \<and> exit_counter s' = xc)"
    by auto
  have tr: "event_trace exact s (env # envs) = map_option ev_type ev # event_trace exact s' envs"
    using t by (rule event_trace_Cons)
  have xc: "exit_counts exact s (env # envs) = exit_counter s2 # exit_counts exact s' envs"
    using g st t by (rule exit_counts_Cons)
  show ?case
  proof (cases "flush_ticks ?h \<le> 1")
    case False
    then have "flush_ticks ?h' \<noteq> 0" using fl by simp
    then have "sum_list ?h' \<noteq> 0" by (simp add: flush_zero)
    moreover have "0 \<le> sum_list ?h'" using nn' by (simp add: sum_list_nonneg)
    ultimately have act: "sum_list ?h' > 0" by simp
    from eff act Cons.prems(1) have
      s': "state s' = INSIDE" "ev = None" "exit_counter s' = 0"
      and pr: "exit_counter s2 = 0"
      by (simp_all add: Let_def EXIT_SECONDS_def)
    define b' where "b' = (if flush_ticks (delta_history s') \<le> 1
        then nat (EXIT_SECONDS - exit_counter s') else flush_ticks (delta_history s') + 3)"
    have bb: "b = Suc b'" "b' \<ge> 1"
      using False fl h s' Cons.prems(7) by (auto simp: b'_def EXIT_SECONDS_def)
    have IH: "length (event_trace exact s' envs) = length envs
     \<and> length (exit_counts exact s' envs) = length envs
     \<and> (\<forall>j<length envs. event_trace exact s' envs ! j = (if Suc j = b' then Some EXIT else None))
     \<and> (\<forall>j<length envs. Suc j < b' \<longrightarrow> exit_counts exact s' envs ! j < EXIT_SECONDS)
     \<and> (\<forall>j<length envs. Suc j = b' \<longrightarrow> exit_counts exact s' envs ! j = EXIT_SECONDS)"
      using Cons.IH [of s' b'] s' h nn' len' p zs b'_def by (simp add: EXIT_SECONDS_def)
    show ?thesis
      unfolding tr xc using IH s' pr bb
      by (auto simp: nth_Cons EXIT_SECONDS_def split: nat.splits)
  next
    case True
    then have "flush_ticks ?h' = 0" using fl by simp
    then have nact: "sum_list ?h' = 0" by (simp add: flush_zero)
    then have az: "\<forall>d\<in>set ?h'. d = 0" using nn' by (simp add: sum_list_nonneg_zero)
    have b: "b = nat (EXIT_SECONDS - exit_counter s)" using True Cons.prems(7) by simp
    from eff nact have pr: "exit_counter s2 = exit_counter s + 1"
      by (simp add: Let_def)
    show ?thesis
    proof (cases "exit_counter s + 1 \<ge> EXIT_SECONDS")
      case True
      with eff nact Cons.prems(1) have
        s': "state s' = OUTSIDE" "map_option ev_type ev = Some EXIT"
        by (simp_all add: Let_def)
      have sil: "event_trace exact s' envs = replicate (length envs) None"
        using silent_outside [of s' envs] s' h az p zs by simp
      have b1: "b = 1" using b True Cons.prems(5) by (simp add: EXIT_SECONDS_def)
      have lc: "length (exit_counts exact s' envs) = length envs"
        using exit_counts_length [of s' envs] p zs by simp
      show ?thesis
        unfolding tr xc using sil s' pr b1 True Cons.prems(5) lc
        by (auto simp: nth_Cons split: nat.splits)
    next
      case False
      with eff nact Cons.prems(1) have
        s': "state s' = INSIDE" "ev = None" "exit_counter s' = exit_counter s + 1"
        by (simp_all add: Let_def)
      define b' where "b' = (if flush_ticks (delta_history s') \<le> 1
        then nat (EXIT_SECONDS - exit_counter s') else flush_ticks (delta_history s') + 3)"
      have bb: "b = Suc b'" "b' \<ge> 1"
        using False \<open>flush_ticks ?h' = 0\<close> h s' b by (auto simp: b'_def)
      have IH: "length (event_trace exact s' envs) = length envs
       \<and> length (exit_counts exact s' envs) = length envs
       \<and> (\<forall>j<length envs. event_trace exact s' envs ! j = (if Suc j = b' then Some EXIT else None))
       \<and> (\<forall>j<length envs. Suc j < b' \<longrightarrow> exit_counts exact s' envs ! j < EXIT_SECONDS)
       \<and> (\<forall>j<length envs. Suc j = b' \<longrightarrow> exit_counts exact s' envs ! j = EXIT_SECONDS)"
        using Cons.IH [of s' b'] s' h nn' len' p zs b'_def False Cons.prems(4) by simp
      show ?thesis
        unfolding tr xc using IH s' pr bb False
        by (auto simp: nth_Cons split: nat.splits)
    qed
  qed
qed



lemma tick_inv:
  assumes t: "tick rnd env s = Continue s' row ev"
    and i: "(\<forall>d\<in>set (delta_history s). 0 \<le> d) \<and> int (length (delta_history s)) \<le> PPS_WINDOW_SEC
            \<and> 0 \<le> exit_counter s \<and> (state s = INSIDE \<longrightarrow> exit_counter s < EXIT_SECONDS)"
  shows "(\<forall>d\<in>set (delta_history s'). 0 \<le> d) \<and> int (length (delta_history s')) \<le> PPS_WINDOW_SEC
            \<and> 0 \<le> exit_counter s' \<and> (state s' = INSIDE \<longrightarrow> exit_counter s' < EXIT_SECONDS)"
proof -
  from tick_effect_state [OF t] obtain sz where
    h: "delta_history s' = push_delta (max 0 (sz - prev_size s)) (delta_history s)"
    and eff: "let act = sum_list (push_delta (max 0 (sz - prev_size s)) (delta_history s)) > 0;
             ec = (if act then entry_counter s + 1 else 0);
             xc = (if act then 0 else exit_counter s + 1)
         in (if state s = OUTSIDE \<and> ec \<ge> ENTRY_SECONDS
                then state s' = INSIDE \<and> map_option ev_type ev = Some ENTRY
                     \<and> entry_counter s' = 0 \<and> exit_counter s' = xc
                else if state s = INSIDE \<and> xc \<ge> EXIT_SECONDS
                then state s' = OUTSIDE \<and> map_option ev_type ev = Some EXIT
                     \<and> exit_counter s' = 0 \<and> entry_counter s' = ec
                else state s' = state s \<and> ev = None
                     \<and> entry_counter s' = ec \<and> exit_counter s' = xc)"
    by blast
  let ?h' = "push_delta (max 0 (sz - prev_size s)) (delta_history s)"
  have nn: "\<forall>d\<in>set ?h'. 0 \<le> d"
    using push_set [of "max 0 (sz - prev_size s)" "delta_history s"] i by auto
  have len: "int (length ?h') \<le> PPS_WINDOW_SEC" using i by (simp add: push_length)
  have "0 \<le> exit_counter s' \<and> (state s' = INSIDE \<longrightarrow> exit_counter s' < EXIT_SECONDS)"
    using eff i by (auto simp: Let_def ENTRY_SECONDS_def EXIT_SECONDS_def split: if_splits)
  with nn len h show ?thesis by simp
qed

lemma run_inv:
  "(\<forall>d\<in>set (delta_history s). 0 \<le> d) \<and> int (length (delta_history s)) \<le> PPS_WINDOW_SEC
     \<and> 0 \<le> exit_counter s \<and> (state s = INSIDE \<longrightarrow> exit_counter s < EXIT_SECONDS) \<Longrightarrow>
   (\<forall>d\<in>set (delta_history (snd (run rnd s envs))). 0 \<le> d)
     \<and> int (length (delta_history (snd (run rnd s envs)))) \<le> PPS_WINDOW_SEC
     \<and> 0 \<le> exit_counter (snd (run rnd s envs))
     \<and> (state (snd (run rnd s envs)) = INSIDE \<longrightarrow> exit_counter (snd (run rnd s envs)) < EXIT_SECONDS)"
proof (induction envs arbitrary: s)
  case Nil
  then show ?case by simp
next
  case (Cons env envs)
  show ?case
  proof (cases "tick rnd env s")
    case Break
    then show ?thesis using Cons.prems by simp
  next
    case (Raise e)
    then show ?thesis using Cons.prems by simp
  next
    case (Continue s' row ev)
    have r: "snd (run rnd s (env # envs)) = snd (run rnd s' envs)"
      by (simp add: run_Continue [OF Continue] del: run.simps)
    have i': "(\<forall>d\<in>set (delta_history s'). 0 \<le> d) \<and> int (length (delta_history s')) \<le> PPS_WINDOW_SEC
            \<and> 0 \<le> exit_counter s' \<and> (state s' = INSIDE \<longrightarrow> exit_counter s' < EXIT_SECONDS)"
      by (rule tick_inv [OF Continue Cons.prems])
    show ?thesis unfolding r by (rule Cons.IH [OF i'])
  qed
qed

lemma initial_inv:
  "(\<forall>d\<in>set (delta_history (initial_state n)). 0 \<le> d)
     \<and> int (length (delta_history (initial_state n))) \<le> PPS_WINDOW_SEC
     \<and> 0 \<le> exit_counter (initial_state n)
     \<and> (state (initial_state n) = INSIDE \<longrightarrow> exit_counter (initial_state n) < EXIT_SECONDS)"
  by (simp add: initial_state_def PPS_WINDOW_SEC_def)

lemma run_alternates:
  "alternates (state s) (map the (filter (\<lambda>k. k \<noteq> None) (event_trace rnd s envs)))"
proof (induction envs arbitrary: s)
  case Nil
  then show ?case by (simp add: event_trace_def)
next
  case (Cons env envs)
  show ?case
  proof (cases "tick rnd env s")
    case Break
    then show ?thesis by (simp add: event_trace_def)
  next
    case (Raise e)
    then show ?thesis by (simp add: event_trace_def)
  next
    case (Continue s' row ev)
    from tick_effect_state [OF Continue] obtain sz where
      eff: "let act = sum_list (push_delta (max 0 (sz - prev_size s)) (delta_history s)) > 0;
             ec = (if act then entry_counter s + 1 else 0);
             xc = (if act then 0 else exit_counter s + 1)
         in (if state s = OUTSIDE \<and> ec \<ge> ENTRY_SECONDS
                then state s' = INSIDE \<and> map_option ev_type ev = Some ENTRY
                     \<and> entry_counter s' = 0 \<and> exit_counter s' = xc
                else if state s = INSIDE \<and> xc \<ge> EXIT_SECONDS
                then state s' = OUTSIDE \<and> map_option ev_type ev = Some EXIT
                     \<and> exit_counter s' = 0 \<and> entry_counter s' = ec
                else state s' = state s \<and> ev = None
                     \<and> entry_counter s' = ec \<and> exit_counter s' = xc)"
      by blast
    have tr: "event_trace rnd s (env # envs) = map_option ev_type ev # event_trace rnd s' envs"
      using Continue by (rule event_trace_Cons)
    have d: "(state s = OUTSIDE \<and> state s' = INSIDE \<and> map_option ev_type ev = Some ENTRY)
       \<or> (state s = INSIDE \<and> state s' = OUTSIDE \<and> map_option ev_type ev = Some EXIT)
       \<or> (state s' = state s \<and> map_option ev_type ev = None)"
    proof (cases "state s")
      case OUTSIDE
      with eff show ?thesis by (simp add: Let_def split: if_splits)
    next
      case INSIDE
      with eff show ?thesis by (simp add: Let_def split: if_splits)
    qed
    from d show ?thesis
    proof (elim disjE conjE)
      assume "state s = OUTSIDE" "state s' = INSIDE" "map_option ev_type ev = Some ENTRY"
      with Cons.IH [of s'] show ?thesis unfolding tr by auto
    next
      assume "state s = INSIDE" "state s' = OUTSIDE" "map_option ev_type ev = Some EXIT"
      with Cons.IH [of s'] show ?thesis unfolding tr by auto
    next
      assume "state s' = state s" "map_option ev_type ev = None"
      with Cons.IH [of s'] show ?thesis unfolding tr by auto
    qed
  qed
qed

lemma event_trace_append:
  "length (fst (run rnd s envs)) = length envs \<Longrightarrow>
     event_trace rnd s (envs @ later) = event_trace rnd s envs @ event_trace rnd (snd (run rnd s envs)) later"
proof (induction envs arbitrary: s)
  case Nil
  then show ?case by (simp add: event_trace_def)
next
  case (Cons env envs)
  show ?case
  proof (cases "tick rnd env s")
    case Break
    then show ?thesis using Cons.prems by simp
  next
    case (Raise e)
    then show ?thesis using Cons.prems by simp
  next
    case (Continue s' row ev)
    from Cons.prems have "length (fst (run rnd s' envs)) = length envs"
      by (simp add: run_Continue [OF Continue] del: run.simps)
    from Cons.IH [OF this] show ?thesis
      using event_trace_Cons [OF Continue] run_Continue [OF Continue]
      by (simp del: run.simps)
  qed
qed


lemmas tick_eval = tick_def sample_tick_def transition_def record_event_def update_counters_def
  remember_fix_def push_delta_def smoothed_pps_def window_pdr_def tick_speed_def
  get_remote_file_size_def quiet_env_def initial_state_def Let_def
  PACKET_SIZE_BYTES_def POLL_INTERVAL_SEC_def ENTRY_SECONDS_def EXIT_SECONDS_def PPS_WINDOW_SEC_def

lemma entered_eq: "entered = \<lparr> prev_size = 294, state = INSIDE, entry_counter = 0, exit_counter = 0,
       delta_history = [98, 98, 98], events_list = [],
       last_gps_lat = None, last_gps_lon = None, last_gps_time = None \<rparr>"
  by (simp add: entered_def tick_eval)

lemma flush_le: "int (length h) \<le> PPS_WINDOW_SEC \<Longrightarrow> flush_ticks h \<le> nat PPS_WINDOW_SEC"
proof -
  assume l: "int (length h) \<le> PPS_WINDOW_SEC"
  have "length (dropWhile (\<lambda>d. d = 0) (rev h)) \<le> length (rev h)"
    by (rule length_dropWhile_le)
  with l show ?thesis by (auto simp: flush_ticks_def PPS_WINDOW_SEC_def)
qed

lemma exit_once_exact:
  assumes reach: "s = snd (run exact (initial_state size0) pre)"
    and inside: "state s = INSIDE"
    and zeros: "zero_deltas (prev_size s) envs"
    and long: "int (length envs) \<ge> EXIT_SECONDS + PPS_WINDOW_SEC - 1"
  shows "\<exists>k<length envs.
           event_trace exact s envs = replicate k None @ [Some EXIT] @ replicate (length envs - Suc k) None
         \<and> exit_counts exact s envs ! k = EXIT_SECONDS
         \<and> (\<forall>j<k. exit_counts exact s envs ! j < EXIT_SECONDS)
         \<and> alternates INSIDE (map the (filter (\<lambda>e. e \<noteq> None) (event_trace exact s (envs @ later))))"
proof -
  have inv: "(\<forall>d\<in>set (delta_history s). 0 \<le> d) \<and> int (length (delta_history s)) \<le> PPS_WINDOW_SEC
     \<and> 0 \<le> exit_counter s \<and> (state s = INSIDE \<longrightarrow> exit_counter s < EXIT_SECONDS)"
    unfolding reach by (rule run_inv [OF initial_inv])
  define b where "b = (if flush_ticks (delta_history s) \<le> 1 then nat (EXIT_SECONDS - exit_counter s)
              else flush_ticks (delta_history s) + 3)"
  have fl: "flush_ticks (delta_history s) \<le> 4"
    using flush_le [of "delta_history s"] inv by (simp add: PPS_WINDOW_SEC_def)
  have b1: "1 \<le> b" using inv inside by (auto simp: b_def EXIT_SECONDS_def)
  have b7: "b \<le> length envs"
    using fl inv long by (auto simp: b_def EXIT_SECONDS_def PPS_WINDOW_SEC_def)
  from exit_position [of s envs b] inv inside zeros b_def have
    len: "length (event_trace exact s envs) = length envs"
    and ev: "\<forall>j<length envs. event_trace exact s envs ! j = (if Suc j = b then Some EXIT else None)"
    and lo: "\<forall>j<length envs. Suc j < b \<longrightarrow> exit_counts exact s envs ! j < EXIT_SECONDS"
    and at: "\<forall>j<length envs. Suc j = b \<longrightarrow> exit_counts exact s envs ! j = EXIT_SECONDS"
    by simp_all
  define k where "k = b - 1"
  have k: "k < length envs" "Suc k = b" using b1 b7 by (simp_all add: k_def)
  have tr: "event_trace exact s envs = replicate k None @ [Some EXIT] @ replicate (length envs - Suc k) None"
  proof (rule nth_equalityI)
    show "length (event_trace exact s envs)
            = length (replicate k None @ [Some EXIT] @ replicate (length envs - Suc k) None)"
      using len k by simp
  next
    fix j assume "j < length (event_trace exact s envs)"
    then have j: "j < length envs" using len by simp
    with ev have e: "event_trace exact s envs ! j = (if Suc j = b then Some EXIT else None)" by simp
    show "event_trace exact s envs ! j
            = (replicate k None @ [Some EXIT] @ replicate (length envs - Suc k) None) ! j"
      using e j k by (auto simp: nth_append nth_Cons split: nat.splits)
  qed
  have "alternates (state s) (map the (filter (\<lambda>e. e \<noteq> None) (event_trace exact s (envs @ later))))"
    by (rule run_alternates)
  with tr k lo at inside show ?thesis by auto
qed


text \<open>
  C1, as the code has it. Take a run of the loop from its initial state that has reached
  \<open>INSIDE\<close>, and feed it ticks whose \<^verbatim>\<open>delta_bytes\<close> are all 0. The counters follow
  the smoothed rate of the window, so the ticks in which an earlier non-zero delta is
  still inside the window do not count. If the stretch has at least
  \<open>EXIT_SECONDS + PPS_WINDOW_SEC - 1\<close> ticks, exactly one \<open>EXIT\<close> event is emitted in it,
  at the first tick at which \<^verbatim>\<open>exit_counter\<close> reaches \<open>EXIT_SECONDS\<close>, and no other
  event. Whatever ticks follow, the events from there on alternate, so no second
  \<open>EXIT\<close> comes before an \<open>ENTRY\<close>. The arithmetic of the distances is exact here, so
  every tick of the stretch completes; lemma \<open>exit_fires_once_with_rounding\<close> below has
  the same for any rounding and a stretch whose ticks complete.
\<close>

theorem exit_fires_once_after_quiet_window:
  assumes reach: "s = snd (run exact (initial_state size0) pre)"
    and inside: "state s = INSIDE"
    and zeros: "zero_deltas (prev_size s) envs"
    and long: "int (length envs) \<ge> EXIT_SECONDS + PPS_WINDOW_SEC - 1"
  shows "\<exists>k<length envs.
           event_trace exact s envs = replicate k None @ [Some EXIT] @ replicate (length envs - Suc k) None
         \<and> exit_counts exact s envs ! k = EXIT_SECONDS
         \<and> (\<forall>j<k. exit_counts exact s envs ! j < EXIT_SECONDS)
         \<and> alternates INSIDE (map the (filter (\<lambda>e. e \<noteq> None) (event_trace exact s (envs @ later))))"
  using assms by (rule exit_once_exact)

theorem exit_fires_once_after_quiet_window_witness:
  "\<exists>k<7. event_trace exact entered (replicate 7 (quiet_env 294))
            = replicate k None @ [Some EXIT] @ replicate (7 - Suc k) None
         \<and> exit_counts exact entered (replicate 7 (quiet_env 294)) ! k = EXIT_SECONDS
         \<and> (\<forall>j<k. exit_counts exact entered (replicate 7 (quiet_env 294)) ! j < EXIT_SECONDS)
         \<and> alternates INSIDE (map the (filter (\<lambda>e. e \<noteq> None)
              (event_trace exact entered (replicate 7 (quiet_env 294) @ [quiet_env 400]))))"
proof -
  have i: "state entered = INSIDE" and p: "prev_size entered = 294"
    by (simp_all add: entered_eq)
  have z: "zero_deltas (prev_size entered) (replicate 7 (quiet_env 294))"
    unfolding p by (simp add: eval_nat_numeral get_remote_file_size_def quiet_env_def)
  have l: "int (length (replicate 7 (quiet_env 294))) \<ge> EXIT_SECONDS + PPS_WINDOW_SEC - 1"
    by (simp add: EXIT_SECONDS_def PPS_WINDOW_SEC_def)
  show ?thesis
    using exit_fires_once_after_quiet_window [OF entered_def i z l, of "[quiet_env 400]"]
    by simp
qed

text \<open>
  C1 as stated fails: right after the three ticks of growth that produce the \<open>ENTRY\<close>,
  \<open>EXIT_SECONDS\<close> ticks without growth emit no event, because the window still holds
  the earlier deltas for three of them.
\<close>

theorem no_exit_after_exit_seconds_quiet_ticks:
  "state entered = INSIDE
   \<and> zero_deltas (prev_size entered) (replicate 4 (quiet_env 294))
   \<and> int (length (replicate 4 (quiet_env 294))) \<ge> EXIT_SECONDS
   \<and> event_trace exact entered (replicate 4 (quiet_env 294)) = [None, None, None, None]
   \<and> exit_counts exact entered (replicate 4 (quiet_env 294)) = [0, 0, 0, 1]"
  unfolding entered_eq
  by (simp add: event_trace_def tick_eval eval_nat_numeral)



lemma haversine_m_exact_same: "haversine_m exact lat lon lat lon = Inr 0"
  by (rule haversine_m_same) (simp add: exact_def)

lemma tick_speed_eq: "tick_speed rnd s g = speed_between rnd (last_fix s) g"
  by (auto simp: tick_speed_def speed_between_def last_fix_def POLL_INTERVAL_SEC_def Let_def
      split: option.splits prod.splits sum.splits)

lemma gps_fields_update_counters [simp]:
  "last_gps_lat (update_counters p s) = last_gps_lat s"
  "last_gps_lon (update_counters p s) = last_gps_lon s"
  "last_gps_time (update_counters p s) = last_gps_time s"
  by (simp_all add: update_counters_def)

lemma gps_fields_transition [simp]:
  "last_gps_lat (fst (transition env p s)) = last_gps_lat s"
  "last_gps_lon (fst (transition env p s)) = last_gps_lon s"
  "last_gps_time (fst (transition env p s)) = last_gps_time s"
  by (simp_all add: transition_def record_event_def Let_def)

lemma last_fix_update_counters [simp]: "last_fix (update_counters p s) = last_fix s"
  by (simp add: last_fix_def)

lemma last_fix_transition [simp]: "last_fix (fst (transition env p s)) = last_fix s"
  by (simp add: last_fix_def)

lemma last_fix_remember:
  "last_fix (remember_fix env s) = (case gps env of None \<Rightarrow> last_fix s | Some g \<Rightarrow> Some g)"
  by (simp add: last_fix_def remember_fix_def split: option.splits prod.splits)

lemma tick_gps:
  assumes t: "tick rnd env s = Continue s' row ev"
  shows "row_latitude row = map_option fst (gps env)"
    and "row_longitude row = map_option snd (gps env)"
    and "speed_between rnd (last_fix s) (gps env) = Inr (speed_mph row)"
    and "last_fix s' = (case gps env of None \<Rightarrow> last_fix s | Some g \<Rightarrow> Some g)"
proof -
  from tick_Continue [OF t] obtain sz s2 where
    st: "sample_tick rnd env sz s = Inr (s2, row)"
    and tr: "transition env (pps row) s2 = (s', ev)" by blast
  from st obtain v where v: "tick_speed rnd s (gps env) = Inr v"
    by (cases "tick_speed rnd s (gps env)") (simp_all add: sample_tick_def Let_def)
  from st v have row: "row_latitude row = map_option fst (gps env)"
    "row_longitude row = map_option snd (gps env)" "speed_mph row = v"
    and s2: "s2 = update_counters (pps row)
               (remember_fix env (s\<lparr> prev_size := sz,
                  delta_history := push_delta (max 0 (sz - prev_size s)) (delta_history s) \<rparr>))"
    by (auto simp: sample_tick_def Let_def)
  show "row_latitude row = map_option fst (gps env)" by (rule row(1))
  show "row_longitude row = map_option snd (gps env)" by (rule row(2))
  show "speed_between rnd (last_fix s) (gps env) = Inr (speed_mph row)"
    using v row(3) by (simp add: tick_speed_eq)
  have "last_fix s2 = (case gps env of None \<Rightarrow> last_fix s | Some g \<Rightarrow> Some g)"
    unfolding s2
    by (cases "gps env") (simp_all add: last_fix_remember, simp add: last_fix_def)
  moreover have "last_fix s' = last_fix s2"
    using last_fix_transition [of env "pps row" s2] tr by simp
  ultimately show "last_fix s' = (case gps env of None \<Rightarrow> last_fix s | Some g \<Rightarrow> Some g)"
    by simp
qed

lemma latest_fix_set:
  "(latest_fix f envs \<noteq> None) = (f \<noteq> None \<or> (\<exists>env\<in>set envs. gps env \<noteq> None))"
  by (induction envs arbitrary: f) (auto split: option.splits)

lemma run_complete_Cons:
  assumes "length (fst (run rnd s (env # envs))) = length (env # envs)"
  shows "\<exists>s' row ev. tick rnd env s = Continue s' row ev
           \<and> length (fst (run rnd s' envs)) = length envs"
proof (cases "tick rnd env s")
  case Break
  with assms show ?thesis by simp
next
  case (Raise e)
  with assms show ?thesis by simp
next
  case (Continue s' row ev)
  with assms have "length (fst (run rnd s' envs)) = length envs"
    by (simp add: run_Continue [OF Continue] del: run.simps)
  with Continue show ?thesis by blast
qed

lemma run_gps:
  "length (fst (run rnd s envs)) = length envs \<Longrightarrow> i < length envs \<Longrightarrow>
     row_latitude (map fst (fst (run rnd s envs)) ! i) = map_option fst (gps (envs ! i))
   \<and> row_longitude (map fst (fst (run rnd s envs)) ! i) = map_option snd (gps (envs ! i))
   \<and> speed_between rnd (latest_fix (last_fix s) (take i envs)) (gps (envs ! i))
       = Inr (speed_mph (map fst (fst (run rnd s envs)) ! i))"
proof (induction envs arbitrary: s i)
  case Nil
  then show ?case by simp
next
  case (Cons env envs)
  from run_complete_Cons [OF Cons.prems(1)] obtain s' row ev where
    t: "tick rnd env s = Continue s' row ev"
    and rest: "length (fst (run rnd s' envs)) = length envs" by blast
  have r: "map fst (fst (run rnd s (env # envs))) = row # map fst (fst (run rnd s' envs))"
    by (simp add: run_Continue [OF t] del: run.simps)
  show ?case
  proof (cases i)
    case 0
    with tick_gps [OF t] show ?thesis unfolding r by simp
  next
    case (Suc i')
    with Cons.prems(2) have "i' < length envs" by simp
    from Cons.IH [OF rest this] tick_gps(4) [OF t] Suc
    show ?thesis unfolding r by simp
  qed
qed

lemma run_last_fix:
  "length (fst (run rnd s envs)) = length envs \<Longrightarrow>
     last_fix (snd (run rnd s envs)) = latest_fix (last_fix s) envs"
proof (induction envs arbitrary: s)
  case Nil
  then show ?case by simp
next
  case (Cons env envs)
  from run_complete_Cons [OF Cons.prems(1)] obtain s' row ev where
    t: "tick rnd env s = Continue s' row ev"
    and rest: "length (fst (run rnd s' envs)) = length envs" by blast
  from Cons.IH [OF rest] tick_gps(4) [OF t]
  show ?case by (simp add: run_Continue [OF t] del: run.simps)
qed

lemma speed_between_Some:
  "speed_between rnd prior g = Inr v \<Longrightarrow> (v \<noteq> None) = (g \<noteq> None \<and> prior \<noteq> None)"
  by (auto simp: speed_between_def split: option.splits sum.splits)

lemma last_fix_initial: "last_fix (initial_state n) = None"
  by (simp add: last_fix_def initial_state_def)

text \<open>
  A tick completes exactly when the size read returns a size and the distance
  computation of the tick does not raise; so does every tick of a run.
\<close>

lemma tick_completes_iff:
  "(\<exists>s' row ev. tick rnd env s = Continue s' row ev)
     \<longleftrightarrow> file_readable env \<and> (\<exists>v. speed_between rnd (last_fix s) (gps env) = Inr v)"
proof
  assume "\<exists>s' row ev. tick rnd env s = Continue s' row ev"
  then obtain s' row ev where t: "tick rnd env s = Continue s' row ev" by blast
  from tick_Continue [OF t] have "file_readable env"
    by (auto simp: file_readable_def get_remote_file_size_def
        split: stat_outcome.splits option.splits)
  with tick_gps(3) [OF t] show "file_readable env
      \<and> (\<exists>v. speed_between rnd (last_fix s) (gps env) = Inr v)" by blast
next
  assume a: "file_readable env \<and> (\<exists>v. speed_between rnd (last_fix s) (gps env) = Inr v)"
  then obtain sz where "get_remote_file_size (sftp env) REMOTE_RX_FILE = Inr (Some sz)"
    by (auto simp: file_readable_def get_remote_file_size_def
        split: stat_outcome.splits option.splits)
  moreover from a obtain v where "tick_speed rnd s (gps env) = Inr v"
    by (auto simp: tick_speed_eq)
  ultimately show "\<exists>s' row ev. tick rnd env s = Continue s' row ev"
    by (simp add: tick_def sample_tick_def Let_def split: prod.splits)
qed

lemma run_completes_iff:
  "length (fst (run rnd s envs)) = length envs
     \<longleftrightarrow> (\<forall>i<length envs. file_readable (envs ! i)
            \<and> (\<exists>v. speed_between rnd (latest_fix (last_fix s) (take i envs)) (gps (envs ! i))
                     = Inr v))"
proof (induction envs arbitrary: s)
  case Nil
  then show ?case by simp
next
  case (Cons env envs)
  let ?ok = "\<lambda>f es i. file_readable (es ! i)
            \<and> (\<exists>v. speed_between rnd (latest_fix f (take i es)) (gps (es ! i)) = Inr v)"
  let ?f' = "case gps env of None \<Rightarrow> last_fix s | Some g \<Rightarrow> Some g"
  have split: "(\<forall>i<length (env # envs). ?ok (last_fix s) (env # envs) i)
      \<longleftrightarrow> ?ok (last_fix s) (env # envs) 0 \<and> (\<forall>i<length envs. ?ok ?f' envs i)"
    by (auto simp: less_Suc_eq_0_disj)
  show ?case
  proof
    assume c: "length (fst (run rnd s (env # envs))) = length (env # envs)"
    from run_complete_Cons [OF c] obtain s' row ev where
      t: "tick rnd env s = Continue s' row ev"
      and rest: "length (fst (run rnd s' envs)) = length envs" by blast
    from t have "\<exists>s' row ev. tick rnd env s = Continue s' row ev" by blast
    then have h: "?ok (last_fix s) (env # envs) 0" unfolding tick_completes_iff by simp
    from rest have "\<forall>i<length envs. ?ok (last_fix s') envs i" unfolding Cons.IH .
    then have "\<forall>i<length envs. ?ok ?f' envs i" unfolding tick_gps(4) [OF t] .
    with h show "\<forall>i<length (env # envs). ?ok (last_fix s) (env # envs) i"
      unfolding split by blast
  next
    assume "\<forall>i<length (env # envs). ?ok (last_fix s) (env # envs) i"
    then have h: "?ok (last_fix s) (env # envs) 0" and r: "\<forall>i<length envs. ?ok ?f' envs i"
      unfolding split by blast+
    from h have "\<exists>s' row ev. tick rnd env s = Continue s' row ev"
      unfolding tick_completes_iff by simp
    then obtain s' row ev where t: "tick rnd env s = Continue s' row ev" by blast
    from r have "\<forall>i<length envs. ?ok (last_fix s') envs i" unfolding tick_gps(4) [OF t] .
    then have "length (fst (run rnd s' envs)) = length envs" unfolding Cons.IH .
    then show "length (fst (run rnd s (env # envs))) = length (env # envs)"
      by (simp add: run_Continue [OF t] del: run.simps)
  qed
qed

text \<open>
  C5, as the code has it. In a run from the initial state that completes its ticks (each
  size read returns a size and no distance computation raises), the sample of every tick
  carries the fix of that tick, or no location when there is none. The loop remembers
  the most recent fix of the run, also across ticks without a fix. A speed is written
  exactly when the tick has a fix and some earlier tick of the run had one; it is the
  haversine distance from the remembered fix to the fix of the tick, divided by the poll
  interval, converted to miles per hour. A tick without a fix writes no speed and leaves
  the remembered fix as it was.
\<close>

theorem speed_uses_last_retained_fix:
  assumes completes: "length (fst (run rnd (initial_state size0) envs)) = length envs"
    and i: "i < length envs"
  shows "row_latitude (map fst (fst (run rnd (initial_state size0) envs)) ! i)
           = map_option fst (gps (envs ! i))
       \<and> row_longitude (map fst (fst (run rnd (initial_state size0) envs)) ! i)
           = map_option snd (gps (envs ! i))
       \<and> speed_between rnd (latest_fix None (take i envs)) (gps (envs ! i))
           = Inr (speed_mph (map fst (fst (run rnd (initial_state size0) envs)) ! i))
       \<and> (speed_mph (map fst (fst (run rnd (initial_state size0) envs)) ! i) \<noteq> None
            \<longleftrightarrow> gps (envs ! i) \<noteq> None \<and> (\<exists>j<i. gps (envs ! j) \<noteq> None))
       \<and> (gps (envs ! i) = None
            \<longrightarrow> speed_mph (map fst (fst (run rnd (initial_state size0) envs)) ! i) = None)
       \<and> last_fix (snd (run rnd (initial_state size0) envs)) = latest_fix None envs"
proof -
  let ?rows = "map fst (fst (run rnd (initial_state size0) envs))"
  from run_gps [OF completes i] have
    la: "row_latitude (?rows ! i) = map_option fst (gps (envs ! i))"
    and lo: "row_longitude (?rows ! i) = map_option snd (gps (envs ! i))"
    and sp: "speed_between rnd (latest_fix None (take i envs)) (gps (envs ! i))
               = Inr (speed_mph (?rows ! i))"
    by (simp_all add: last_fix_initial)
  have "(\<exists>env\<in>set (take i envs). gps env \<noteq> None) = (\<exists>j<i. gps (envs ! j) \<noteq> None)"
  proof
    assume "\<exists>env\<in>set (take i envs). gps env \<noteq> None"
    then obtain env where "env \<in> set (take i envs)" and n: "gps env \<noteq> None" by blast
    then obtain j where "j < length (take i envs)" and "take i envs ! j = env"
      by (meson in_set_conv_nth)
    with n i have "j < i" and "gps (envs ! j) \<noteq> None" by simp_all
    then show "\<exists>j<i. gps (envs ! j) \<noteq> None" by blast
  next
    assume "\<exists>j<i. gps (envs ! j) \<noteq> None"
    then obtain j where j: "j < i" and n: "gps (envs ! j) \<noteq> None" by blast
    with i have "j < length (take i envs)" and "take i envs ! j = envs ! j" by simp_all
    then have "envs ! j \<in> set (take i envs)" by (metis nth_mem)
    with n show "\<exists>env\<in>set (take i envs). gps env \<noteq> None" by blast
  qed
  then have ex: "(latest_fix None (take i envs) \<noteq> None) = (\<exists>j<i. gps (envs ! j) \<noteq> None)"
    unfolding latest_fix_set by blast
  have iff: "speed_mph (?rows ! i) \<noteq> None
            \<longleftrightarrow> gps (envs ! i) \<noteq> None \<and> (\<exists>j<i. gps (envs ! j) \<noteq> None)"
    unfolding speed_between_Some [OF sp] ex ..
  have lf: "last_fix (snd (run rnd (initial_state size0) envs)) = latest_fix None envs"
    using run_last_fix [OF completes] by (simp add: last_fix_initial)
  from la lo sp iff lf show ?thesis by blast
qed

theorem speed_uses_last_retained_fix_witness:
  "speed_between exact (Some (0, 0)) (Some (0, 90))
     = Inr (speed_mph (map fst (fst (run exact (initial_state 0)
         [fix_env 0 0 0, quiet_env 0, fix_env 0 0 90])) ! 2))
   \<and> speed_mph (map fst (fst (run exact (initial_state 0)
         [fix_env 0 0 0, quiet_env 0, fix_env 0 0 90])) ! 2) \<noteq> None
   \<and> last_fix (snd (run exact (initial_state 0) [fix_env 0 0 0, quiet_env 0, fix_env 0 0 90]))
     = Some (0, 90)"
proof -
  have r: "list_all file_readable [fix_env 0 0 0, quiet_env 0, fix_env 0 0 90]"
    by (simp add: file_readable_def fix_env_def quiet_env_def)
  have c: "length (fst (run exact (initial_state 0) [fix_env 0 0 0, quiet_env 0, fix_env 0 0 90]))
             = length [fix_env 0 0 0, quiet_env 0, fix_env 0 0 90]"
    using r by (rule run_readable_length)
  have i: "2 < length [fix_env 0 0 0, quiet_env 0, fix_env 0 0 90]" by simp
  have g: "gps (fix_env 0 0 0) = Some (0, 0)" "gps (quiet_env 0) = None"
    "gps (fix_env 0 0 90) = Some (0, 90)"
    by (simp_all add: fix_env_def quiet_env_def)
  have e: "\<exists>j<2. gps ([fix_env 0 0 0, quiet_env 0, fix_env 0 0 90] ! j) \<noteq> None"
    using g by (intro exI [of _ 0]) simp
  show ?thesis
    using speed_uses_last_retained_fix [OF c i] g e
    by (simp add: eval_nat_numeral del: run.simps)
qed

text \<open>
  C5 as stated fails: the third tick below writes a speed although the second tick had
  no fix, so the two fixes it is computed from are two ticks apart.
\<close>

theorem speed_across_missing_fix:
  "gps ([fix_env 0 0 0, quiet_env 0, fix_env 0 0 0] ! 1) = None
   \<and> speed_mph (map fst (fst (run exact (initial_state 0)
        [fix_env 0 0 0, quiet_env 0, fix_env 0 0 0])) ! 2) = Some 0"
  by (simp add: tick_eval fix_env_def haversine_m_exact_same)


text \<open>
  The rounding of the distances decides only whether a tick completes and which speed it
  writes: states, events and counters are those of exact arithmetic. So the debounce
  property holds for any rounding on a stretch whose ticks complete.
\<close>

lemma sample_tick_rounding_free:
  assumes "sample_tick rnd env sz s = Inr (s2, row)"
  shows "\<exists>row'. sample_tick exact env sz s = Inr (s2, row') \<and> pps row' = pps row"
proof -
  from sample_tick_exact [of env sz s] obtain s2' row' where
    e: "sample_tick exact env sz s = Inr (s2', row')" by blast
  from assms e have "s2' = s2 \<and> pps row' = pps row"
    by (auto simp: sample_tick_def Let_def split: sum.splits)
  with e show ?thesis by blast
qed

lemma tick_rounding_free:
  assumes t: "tick rnd env s = Continue s' row ev"
  shows "\<exists>row'. tick exact env s = Continue s' row' ev"
proof -
  from tick_Continue [OF t] obtain sz s2 where
    g: "get_remote_file_size (sftp env) REMOTE_RX_FILE = Inr (Some sz)"
    and st: "sample_tick rnd env sz s = Inr (s2, row)"
    and tr: "transition env (pps row) s2 = (s', ev)" by blast
  from sample_tick_rounding_free [OF st] obtain row' where
    "sample_tick exact env sz s = Inr (s2, row')" "pps row' = pps row" by blast
  with g tr have "tick exact env s = Continue s' row' ev" by (simp add: tick_def)
  then show ?thesis by blast
qed

lemma run_rounding_free:
  "length (fst (run rnd s envs)) = length envs \<Longrightarrow>
     event_trace rnd s envs = event_trace exact s envs
   \<and> exit_counts rnd s envs = exit_counts exact s envs"
proof (induction envs arbitrary: s)
  case Nil
  then show ?case by (simp add: event_trace_def)
next
  case (Cons env envs)
  from run_complete_Cons [OF Cons.prems] obtain s' row ev where
    t: "tick rnd env s = Continue s' row ev"
    and rest: "length (fst (run rnd s' envs)) = length envs" by blast
  from tick_Continue [OF t] obtain sz s2 where
    g: "get_remote_file_size (sftp env) REMOTE_RX_FILE = Inr (Some sz)"
    and st: "sample_tick rnd env sz s = Inr (s2, row)" by blast
  from tick_rounding_free [OF t] obtain row' where
    t': "tick exact env s = Continue s' row' ev" by blast
  from tick_Continue [OF t'] g obtain s2' where
    st': "sample_tick exact env sz s = Inr (s2', row')" by auto
  from sample_tick_rounding_free [OF st] st' have s2: "s2' = s2" by auto
  have "exit_counts rnd s (env # envs) = exit_counter s2 # exit_counts rnd s' envs"
    using g st t by (rule exit_counts_Cons)
  moreover have "exit_counts exact s (env # envs) = exit_counter s2 # exit_counts exact s' envs"
    using exit_counts_Cons [OF g st' t'] s2 by simp
  moreover note event_trace_Cons [OF t] event_trace_Cons [OF t'] Cons.IH [OF rest]
  ultimately show ?case by simp
qed

lemma reach_rounding_free: "\<exists>pre'. snd (run rnd s pre) = snd (run exact s pre')"
proof (induction pre arbitrary: s)
  case Nil
  have "snd (run rnd s []) = snd (run exact s [])" by simp
  then show ?case by blast
next
  case (Cons env pre)
  show ?case
  proof (cases "tick rnd env s")
    case Break
    then have "snd (run rnd s (env # pre)) = snd (run exact s [])" by simp
    then show ?thesis by blast
  next
    case (Raise e)
    then have "snd (run rnd s (env # pre)) = snd (run exact s [])" by simp
    then show ?thesis by blast
  next
    case (Continue s' row ev)
    from tick_rounding_free [OF Continue] obtain row' where
      t': "tick exact env s = Continue s' row' ev" by blast
    from Cons.IH [of s'] obtain pre' where
      "snd (run rnd s' pre) = snd (run exact s' pre')" by blast
    then have "snd (run rnd s (env # pre)) = snd (run exact s (env # pre'))"
      by (simp add: run_Continue [OF Continue] run_Continue [OF t'] del: run.simps)
    then show ?thesis by blast
  qed
qed

lemma exit_fires_once_with_rounding:
  assumes reach: "s = snd (run rnd (initial_state size0) pre)"
    and inside: "state s = INSIDE"
    and zeros: "zero_deltas (prev_size s) envs"
    and long: "int (length envs) \<ge> EXIT_SECONDS + PPS_WINDOW_SEC - 1"
    and completes: "length (fst (run rnd s envs)) = length envs"
  shows "\<exists>k<length envs.
           event_trace rnd s envs
             = replicate k None @ [Some EXIT] @ replicate (length envs - Suc k) None
         \<and> exit_counts rnd s envs ! k = EXIT_SECONDS
         \<and> (\<forall>j<k. exit_counts rnd s envs ! j < EXIT_SECONDS)
         \<and> alternates INSIDE
             (map the (filter (\<lambda>e. e \<noteq> None) (event_trace rnd s (envs @ later))))"
proof -
  from reach_rounding_free [of rnd "initial_state size0" pre] reach obtain pre' where
    reach': "s = snd (run exact (initial_state size0) pre')" by auto
  from exit_once_exact [OF reach' inside zeros long, of "[]"] obtain k where
    k: "k < length envs"
    and tr: "event_trace exact s envs
               = replicate k None @ [Some EXIT] @ replicate (length envs - Suc k) None"
    and at: "exit_counts exact s envs ! k = EXIT_SECONDS"
    and lo: "\<forall>j<k. exit_counts exact s envs ! j < EXIT_SECONDS"
    by blast
  from run_rounding_free [OF completes] have
    e: "event_trace rnd s envs = event_trace exact s envs"
    "exit_counts rnd s envs = exit_counts exact s envs" by simp_all
  have "alternates (state s)
          (map the (filter (\<lambda>e. e \<noteq> None) (event_trace rnd s (envs @ later))))"
    by (rule run_alternates)
  with k tr at lo e inside show ?thesis by auto
qed

subsection \<open>Distances and nearest reference\<close>


lemma haversine_elem_Fin:
  "haversine_elem rnd (Fin la) (Fin lo) lat2 lon2
     = (case haversine_m rnd la lo lat2 lon2 of Inl e \<Rightarrow> NaN | Inr d \<Rightarrow> Fin d)"
  by (simp add: haversine_elem_def haversine_m_def Let_def radians_diff)













lemma np_argmin_NaN: "np_argmin (NaN # xs) = 0"
  by (simp add: np_argmin_def)

lemma np_min_NaN: "np_min (NaN # xs) = NaN"
  by (induction xs) (simp_all add: np_min_def)


lemma length_haversine_m_np [simp]:
  "length (haversine_m_np rnd lat lon a b) = min (length lat) (length lon)"
  by (simp add: haversine_m_np_def)

lemma nth_haversine_m_np:
  "i < length lat \<Longrightarrow> i < length lon \<Longrightarrow>
     haversine_m_np rnd lat lon a b ! i = haversine_elem rnd (lat ! i) (lon ! i) a b"
  by (simp add: haversine_m_np_def)

lemma vstack_T_ref_dists:
  "rsus \<noteq> [] \<Longrightarrow>
     vstack_T (map (\<lambda>r. haversine_m_np rnd lat lon (rsu_lat r) (rsu_lon r)) rsus)
       = map (ref_dists rnd lat lon rsus) [0..<min (length lat) (length lon)]"
  by (cases rsus) (simp_all add: vstack_T_def ref_dists_def)

lemma map2_map_map:
  "map (\<lambda>(a, b). h a b) (zip (map f xs) (map g xs)) = map (\<lambda>x. h (f x) (g x)) xs"
  by (induction xs) simp_all

lemma fold_set_col_nearest [simp]:
  "nearest_rsu (fold (\<lambda>r. set_col (f r) (g r)) rsus m) = nearest_rsu m"
  by (induction rsus arbitrary: m) (simp_all add: set_col_def)

lemma fold_set_col_other:
  "\<forall>r\<in>set rsus. f r \<noteq> c \<Longrightarrow>
     float_cols (fold (\<lambda>r. set_col (f r) (g r)) rsus m) c = float_cols m c"
  by (induction rsus arbitrary: m) (auto simp: set_col_def)

lemma fold_set_col_hit:
  "r \<in> set rsus \<Longrightarrow>
     \<exists>r'\<in>set rsus. f r' = f r
        \<and> float_cols (fold (\<lambda>r. set_col (f r) (g r)) rsus m) (f r) = Some (g r')"
proof (induction rsus arbitrary: m rule: rev_induct)
  case Nil
  then show ?case by simp
next
  case (snoc x xs)
  show ?case
  proof (cases "f x = f r")
    case True
    then show ?thesis by (auto simp: set_col_def)
  next
    case False
    with snoc.prems have "r \<in> set xs" by auto
    from snoc.IH [OF this, of m] False show ?thesis by (auto simp: set_col_def)
  qed
qed

lemma add_distance_features_metrics_Inr:
  assumes la: "float_cols metrics ''latitude'' = Some lat"
    and lo: "float_cols metrics ''longitude'' = Some lon"
    and ne: "rsus \<noteq> []"
  shows "add_distance_features_metrics rnd metrics rsus =
     Inr ((if length rsus > 1
           then set_col ''dist_union_m''
                  (map (\<lambda>i. np_min (ref_dists rnd lat lon rsus i)) [0..<min (length lat) (length lon)])
           else id)
          (set_col ''dist_from_rsu_m''
             (map (\<lambda>i. ref_dists rnd lat lon rsus i ! np_argmin (ref_dists rnd lat lon rsus i))
                  [0..<min (length lat) (length lon)])
             ((fold (\<lambda>r. set_col (dist_col r) (haversine_m_np rnd lat lon (rsu_lat r) (rsu_lon r)))
                    rsus metrics)
              \<lparr> nearest_rsu :=
                  Some (map (\<lambda>i. rsu_id (rsus ! np_argmin (ref_dists rnd lat lon rsus i)))
                            [0..<min (length lat) (length lon)]) \<rparr>)))"
  using ne
  by (simp add: add_distance_features_metrics_def la lo Let_def vstack_T_ref_dists
      map2_map_map comp_def)


lemma haversine_elem_NaN:
  "isnan la \<or> isnan lo \<Longrightarrow> haversine_elem rnd la lo a b = NaN"
  by (cases la; cases lo) (simp_all add: haversine_elem_def)



lemma ref_dists_NaN:
  assumes "i < length lat" "i < length lon" "isnan (lat ! i) \<or> isnan (lon ! i)"
  shows "ref_dists rnd lat lon rsus i = map (\<lambda>r. NaN) rsus"
  using assms by (simp add: ref_dists_def nth_haversine_m_np haversine_elem_NaN)



text \<open>
  C6, as the code has it. For a table with coordinate columns and a non-empty reference
  list the enhancer raises no error, and a sample whose location is missing gets NaN in
  every per-reference distance column, in the nearest distance and, with two or more
  references, in the union distance. Its nearest reference is not left empty:
  \<^verbatim>\<open>np.argmin\<close> of a row of NaN is 0, so it is the first reference of the list.
\<close>

theorem missing_location_propagates:
  assumes la: "float_cols metrics ''latitude'' = Some lat"
    and lo: "float_cols metrics ''longitude'' = Some lon"
    and len: "length lat = length lon"
    and ne: "rsus \<noteq> []"
    and i: "i < length lat"
    and nan: "isnan (lat ! i) \<or> isnan (lon ! i)"
  shows "\<exists>m'. add_distance_features_metrics rnd metrics rsus = Inr m'
    \<and> (\<forall>r\<in>set rsus. \<exists>col. float_cols m' (dist_col r) = Some col \<and> isnan (col ! i))
    \<and> (\<exists>nd. float_cols m' ''dist_from_rsu_m'' = Some nd \<and> isnan (nd ! i))
    \<and> (length rsus > 1 \<longrightarrow> (\<exists>u. float_cols m' ''dist_union_m'' = Some u \<and> isnan (u ! i)))
    \<and> (\<exists>nr. nearest_rsu m' = Some nr \<and> nr ! i = rsu_id (hd rsus))"
proof -
  let ?n = "min (length lat) (length lon)"
  let ?nd = "map (\<lambda>i. ref_dists rnd lat lon rsus i ! np_argmin (ref_dists rnd lat lon rsus i)) [0..<?n]"
  let ?nr = "map (\<lambda>i. rsu_id (rsus ! np_argmin (ref_dists rnd lat lon rsus i))) [0..<?n]"
  let ?u = "map (\<lambda>i. np_min (ref_dists rnd lat lon rsus i)) [0..<?n]"
  let ?g = "\<lambda>r. haversine_m_np rnd lat lon (rsu_lat r) (rsu_lon r)"
  let ?m1 = "fold (\<lambda>r. set_col (dist_col r) (?g r)) rsus metrics"
  let ?m' = "(if length rsus > 1 then set_col ''dist_union_m'' ?u else id)
          (set_col ''dist_from_rsu_m'' ?nd (?m1 \<lparr> nearest_rsu := Some ?nr \<rparr>))"
  have r: "add_distance_features_metrics rnd metrics rsus = Inr ?m'"
    by (rule add_distance_features_metrics_Inr [OF la lo ne])
  have i': "i < ?n" using i len by simp
  from ne obtain r0 rs where rsus: "rsus = r0 # rs" by (cases rsus) auto
  have rd: "ref_dists rnd lat lon rsus i = NaN # map (\<lambda>r. NaN) rs"
    using ref_dists_NaN [of i lat lon rnd rsus] i len nan by (simp add: rsus)
  have k: "np_argmin (ref_dists rnd lat lon rsus i) = 0"
    unfolding rd by (rule np_argmin_NaN)
  have ndi: "?nd ! i = NaN" using i' by (simp add: k) (simp add: rd)
  have ui: "?u ! i = NaN" using i' by (simp add: rd np_min_NaN)
  have nri: "?nr ! i = rsu_id (hd rsus)" using i' by (simp add: k) (simp add: rsus)
  have gi: "\<And>r. ?g r ! i = NaN"
    using i len nan by (simp add: nth_haversine_m_np haversine_elem_NaN)
  have cols: "\<forall>r\<in>set rsus. \<exists>col. float_cols ?m' (dist_col r) = Some col \<and> isnan (col ! i)"
  proof
    fix r assume rin: "r \<in> set rsus"
    have "\<exists>r'\<in>set rsus. dist_col r' = dist_col r
            \<and> float_cols ?m1 (dist_col r) = Some (?g r')"
      by (rule fold_set_col_hit [OF rin])
    then have h: "\<exists>v. float_cols ?m1 (dist_col r) = Some v \<and> v ! i = NaN"
      by (elim bexE conjE) (simp add: gi)
    show "\<exists>col. float_cols ?m' (dist_col r) = Some col \<and> isnan (col ! i)"
    proof (cases "length rsus > 1 \<and> dist_col r = ''dist_union_m''")
      case True
      then have "float_cols ?m' (dist_col r) = Some ?u" by (simp add: set_col_def)
      with ui show ?thesis by simp
    next
      case False
      show ?thesis
      proof (cases "dist_col r = ''dist_from_rsu_m''")
        case True
        then have "float_cols ?m' (dist_col r) = Some ?nd" by (simp add: set_col_def)
        with ndi show ?thesis by simp
      next
        case nf: False
        from False nf have "float_cols ?m' (dist_col r) = float_cols ?m1 (dist_col r)"
          by (auto simp: set_col_def)
        with h show ?thesis by auto
      qed
    qed
  qed
  define m' where "m' = ?m'"
  have f1: "float_cols ?m' ''dist_from_rsu_m'' = Some ?nd" by (simp add: set_col_def)
  have f2: "nearest_rsu ?m' = Some ?nr" by (simp add: set_col_def)
  have f3: "length rsus > 1 \<longrightarrow> float_cols ?m' ''dist_union_m'' = Some ?u"
    by (simp add: set_col_def)
  have g0: "add_distance_features_metrics rnd metrics rsus = Inr m'"
    unfolding m'_def by (rule r)
  have g1: "\<forall>r\<in>set rsus. \<exists>col. float_cols m' (dist_col r) = Some col \<and> isnan (col ! i)"
    unfolding m'_def by (rule cols)
  have g2: "\<exists>nd. float_cols m' ''dist_from_rsu_m'' = Some nd \<and> isnan (nd ! i)"
    unfolding m'_def using f1 ndi by simp
  have g3: "length rsus > 1 \<longrightarrow> (\<exists>u. float_cols m' ''dist_union_m'' = Some u \<and> isnan (u ! i))"
    unfolding m'_def using f3 ui by simp
  have g4: "\<exists>nr. nearest_rsu m' = Some nr \<and> nr ! i = rsu_id (hd rsus)"
    unfolding m'_def using f2 nri by simp
  from g0 g1 g2 g3 g4 show ?thesis by blast
qed


lemma demo_cols:
  "float_cols demo_metrics ''latitude'' = Some [Fin 0, NaN]"
  "float_cols demo_metrics ''longitude'' = Some [Fin 0, NaN]"
  by (simp_all add: demo_metrics_def)


theorem missing_location_propagates_witness:
  "\<exists>m'. add_distance_features_metrics exact demo_metrics demo_rsus = Inr m'
    \<and> (\<forall>r\<in>set demo_rsus. \<exists>col. float_cols m' (dist_col r) = Some col \<and> isnan (col ! 1))
    \<and> (\<exists>nd. float_cols m' ''dist_from_rsu_m'' = Some nd \<and> isnan (nd ! 1))
    \<and> (length demo_rsus > 1 \<longrightarrow> (\<exists>u. float_cols m' ''dist_union_m'' = Some u \<and> isnan (u ! 1)))
    \<and> (\<exists>nr. nearest_rsu m' = Some nr \<and> nr ! 1 = rsu_id (hd demo_rsus))"
proof -
  have h3: "length [Fin 0, NaN] = length [Fin 0, NaN]" by simp
  have h4: "demo_rsus \<noteq> []" by (simp add: demo_rsus_def)
  have h5: "1 < length [Fin 0, NaN]" by simp
  have h6: "isnan ([Fin 0, NaN] ! 1) \<or> isnan ([Fin 0, NaN] ! 1)" by simp
  show ?thesis
    by (rule missing_location_propagates [OF demo_cols h3 h4 h5 h6])
qed

lemma demo_ref_dists_1:
  "ref_dists exact [Fin 0, NaN] [Fin 0, NaN] rsus 1 = map (\<lambda>r. NaN) rsus"
  by (rule ref_dists_NaN) simp_all

text \<open>
  C6 as stated fails: the second sample of the example table has no location and is
  assigned the reference \<open>RSU1\<close>.
\<close>

theorem missing_location_gets_first_reference:
  "isnan ([Fin 0, NaN] ! 1)
   \<and> float_cols demo_metrics ''latitude'' = Some [Fin 0, NaN]
   \<and> (case add_distance_features_metrics exact demo_metrics demo_rsus of
         Inl e \<Rightarrow> None
       | Inr m' \<Rightarrow> map_option (\<lambda>nr. nr ! 1) (nearest_rsu m')) = Some ''RSU1''"
proof -
  have h4: "demo_rsus \<noteq> []" by (simp add: demo_rsus_def)
  have "np_argmin (ref_dists exact [Fin 0, NaN] [Fin 0, NaN] demo_rsus 1) = 0"
    unfolding demo_ref_dists_1 by (simp add: demo_rsus_def np_argmin_def)
  then show ?thesis
    unfolding add_distance_features_metrics_Inr [OF demo_cols h4]
    by (simp add: demo_cols set_col_def) (simp add: demo_rsus_def)
qed





lemma dist_col_union: "(dist_col r = ''dist_union_m'') = (rsu_id r = ''union'')"
proof -
  have "''dist_union_m'' = ''dist_'' @ ''union'' @ ''_m''" by simp
  then show ?thesis unfolding dist_col_def by (simp only: same_append_eq append_same_eq)
qed

lemma dist_col_other [simp]:
  "dist_col r \<noteq> ''has_pkts''" "dist_col r \<noteq> ''delta_bytes''"
  "dist_col r \<noteq> ''time_since_last_pkt''" "dist_col r \<noteq> ''latitude''"
  "dist_col r \<noteq> ''longitude''"
  by (simp_all add: dist_col_def)

lemma build_range_profile_union_error:
  "(build_range_profile_union m bin_m = Inl ValueError) = (float_cols m ''dist_union_m'' = None)"
  by (simp add: build_range_profile_union_def split: option.splits)

lemma build_range_profile_nearest_no_ValueError:
  "build_range_profile_nearest m bin_m \<noteq> Inl ValueError"
  by (simp add: build_range_profile_nearest_def Let_def split: option.splits)

lemma enhanced_columns:
  assumes la: "float_cols metrics ''latitude'' = Some lat"
    and lo: "float_cols metrics ''longitude'' = Some lon"
    and ne: "rsus \<noteq> []"
  shows "\<exists>m'. add_distance_features_metrics rnd metrics rsus = Inr m'
     \<and> float_cols m' ''dist_from_rsu_m'' \<noteq> None
     \<and> (length rsus \<ge> 2 \<longrightarrow> float_cols m' ''dist_union_m'' \<noteq> None)
     \<and> (length rsus < 2 \<and> float_cols metrics ''dist_union_m'' = None
          \<and> (\<forall>r\<in>set rsus. rsu_id r \<noteq> ''union'') \<longrightarrow> float_cols m' ''dist_union_m'' = None)
     \<and> float_cols m' ''has_pkts'' = float_cols metrics ''has_pkts''
     \<and> float_cols m' ''delta_bytes'' = float_cols metrics ''delta_bytes''
     \<and> float_cols m' ''time_since_last_pkt'' = float_cols metrics ''time_since_last_pkt''"
proof -
  let ?g = "\<lambda>r. haversine_m_np rnd lat lon (rsu_lat r) (rsu_lon r)"
  have o: "\<And>c. \<forall>r\<in>set rsus. dist_col r \<noteq> c \<Longrightarrow>
     float_cols (fold (\<lambda>r. set_col (dist_col r) (?g r)) rsus metrics) c = float_cols metrics c"
    by (rule fold_set_col_other)
  have u: "length rsus < 2 \<and> float_cols metrics ''dist_union_m'' = None
          \<and> (\<forall>r\<in>set rsus. rsu_id r \<noteq> ''union'') \<Longrightarrow>
     float_cols (fold (\<lambda>r. set_col (dist_col r) (?g r)) rsus metrics) ''dist_union_m'' = None"
    using o [of "''dist_union_m''"] by (simp add: dist_col_union)
  show ?thesis
    unfolding add_distance_features_metrics_Inr [OF la lo ne]
    using u by (auto simp: set_col_def o)
qed

text \<open>
  C7, as the code has it. The union build raises the configuration error exactly when
  the table it is given has no column \<^verbatim>\<open>dist_union_m\<close>. The enhancer adds that column
  whenever two or more references are given, so the build does not raise the error
  then; a table enhanced with fewer than two references lacks the column, and the build
  would raise on it, provided the raw table has no such column and no reference is
  named \<open>union\<close>. \<^verbatim>\<open>main\<close> itself runs the union build only when it is requested
  and more than one reference is given: it never ends in the configuration error, and
  its result has a union profile exactly in that case.
\<close>

theorem union_profile_built_for_two_or_more_references:
  assumes la: "float_cols metrics ''latitude'' = Some lat"
    and lo: "float_cols metrics ''longitude'' = Some lon"
    and ne: "rsus \<noteq> []"
  shows "(build_range_profile_union m bin_m = Inl ValueError
            \<longleftrightarrow> float_cols m ''dist_union_m'' = None)
       \<and> (\<exists>m'. add_distance_features_metrics rnd metrics rsus = Inr m'
            \<and> (length rsus \<ge> 2 \<longrightarrow> build_range_profile_union m' bin_m \<noteq> Inl ValueError)
            \<and> (length rsus < 2 \<and> float_cols metrics ''dist_union_m'' = None
                 \<and> (\<forall>r\<in>set rsus. rsu_id r \<noteq> ''union'')
               \<longrightarrow> build_range_profile_union m' bin_m = Inl ValueError))
       \<and> main_profiles rnd metrics rsus bin_m w \<noteq> Inl ValueError
       \<and> (\<forall>pn pu. main_profiles rnd metrics rsus bin_m w = Inr (pn, pu)
            \<longrightarrow> (pu \<noteq> None \<longleftrightarrow> w \<and> length rsus \<ge> 2))
       \<and> (float_cols metrics ''has_pkts'' \<noteq> None \<and> float_cols metrics ''delta_bytes'' \<noteq> None
            \<and> float_cols metrics ''time_since_last_pkt'' \<noteq> None
          \<longrightarrow> (\<exists>pn pu. main_profiles rnd metrics rsus bin_m w = Inr (pn, pu)))"
proof -
  from enhanced_columns [OF la lo ne, of rnd] obtain m' where
    e: "add_distance_features_metrics rnd metrics rsus = Inr m'"
    and d: "float_cols m' ''dist_from_rsu_m'' \<noteq> None"
    and u2: "length rsus \<ge> 2 \<longrightarrow> float_cols m' ''dist_union_m'' \<noteq> None"
    and u1: "length rsus < 2 \<and> float_cols metrics ''dist_union_m'' = None
          \<and> (\<forall>r\<in>set rsus. rsu_id r \<noteq> ''union'') \<longrightarrow> float_cols m' ''dist_union_m'' = None"
    and c: "float_cols m' ''has_pkts'' = float_cols metrics ''has_pkts''"
      "float_cols m' ''delta_bytes'' = float_cols metrics ''delta_bytes''"
      "float_cols m' ''time_since_last_pkt'' = float_cols metrics ''time_since_last_pkt''"
    by blast
  have p1: "build_range_profile_union m bin_m = Inl ValueError
            \<longleftrightarrow> float_cols m ''dist_union_m'' = None"
    by (rule build_range_profile_union_error)
  have p2: "\<exists>m'. add_distance_features_metrics rnd metrics rsus = Inr m'
            \<and> (length rsus \<ge> 2 \<longrightarrow> build_range_profile_union m' bin_m \<noteq> Inl ValueError)
            \<and> (length rsus < 2 \<and> float_cols metrics ''dist_union_m'' = None
                 \<and> (\<forall>r\<in>set rsus. rsu_id r \<noteq> ''union'')
               \<longrightarrow> build_range_profile_union m' bin_m = Inl ValueError)"
    using e u1 u2 unfolding build_range_profile_union_error by blast
  have nv: "build_range_profile_nearest m' bin_m \<noteq> Inl ValueError"
    by (rule build_range_profile_nearest_no_ValueError)
  have uv: "length rsus > 1 \<Longrightarrow> build_range_profile_union m' bin_m \<noteq> Inl ValueError"
    using u2 unfolding build_range_profile_union_error by simp
  have p3: "main_profiles rnd metrics rsus bin_m w \<noteq> Inl ValueError"
    using nv uv by (auto simp: main_profiles_def e split: sum.splits)
  have p4: "\<forall>pn pu. main_profiles rnd metrics rsus bin_m w = Inr (pn, pu)
            \<longrightarrow> (pu \<noteq> None \<longleftrightarrow> w \<and> length rsus \<ge> 2)"
    by (auto simp: main_profiles_def e split: sum.splits if_splits)
  have p5: "float_cols metrics ''has_pkts'' \<noteq> None \<and> float_cols metrics ''delta_bytes'' \<noteq> None
            \<and> float_cols metrics ''time_since_last_pkt'' \<noteq> None
          \<longrightarrow> (\<exists>pn pu. main_profiles rnd metrics rsus bin_m w = Inr (pn, pu))"
  proof
    assume a: "float_cols metrics ''has_pkts'' \<noteq> None \<and> float_cols metrics ''delta_bytes'' \<noteq> None
            \<and> float_cols metrics ''time_since_last_pkt'' \<noteq> None"
    with c d have "\<exists>pn. build_range_profile_nearest m' bin_m = Inr pn"
      by (auto simp: build_range_profile_nearest_def Let_def split: option.splits)
    moreover from a c u2 have "length rsus > 1 \<Longrightarrow> \<exists>pu. build_range_profile_union m' bin_m = Inr pu"
      by (auto simp: build_range_profile_union_def split: option.splits)
    ultimately show "\<exists>pn pu. main_profiles rnd metrics rsus bin_m w = Inr (pn, pu)"
      by (auto simp: main_profiles_def e)
  qed
  from p1 p2 p3 p4 p5 show ?thesis by blast
qed

theorem union_profile_built_for_two_or_more_references_witness:
  "main_profiles exact demo_metrics demo_rsus 50 True \<noteq> Inl ValueError
   \<and> (\<exists>pn pu. main_profiles exact demo_metrics demo_rsus 50 True = Inr (pn, pu) \<and> pu \<noteq> None)"
proof -
  have h4: "demo_rsus \<noteq> []" by (simp add: demo_rsus_def)
  have l: "length demo_rsus \<ge> 2" by (simp add: demo_rsus_def)
  have c: "float_cols demo_metrics ''has_pkts'' \<noteq> None \<and> float_cols demo_metrics ''delta_bytes'' \<noteq> None
            \<and> float_cols demo_metrics ''time_since_last_pkt'' \<noteq> None"
    by (simp add: demo_metrics_def)
  from union_profile_built_for_two_or_more_references [OF demo_cols h4, of _ 50 exact True] l c
  show ?thesis by blast
qed

text \<open>
  C7 as stated fails in its first part: with one reference and the union profile
  requested, \<^verbatim>\<open>main\<close> raises no error. It writes the nearest profile and skips the
  union build, which is never given a table produced with fewer than two references.
\<close>

theorem union_profile_skipped_for_one_reference:
  "length one_rsu < 2
   \<and> main_profiles exact demo_metrics one_rsu 50 True
       = Inr ([\<lparr> pr_nearest_rsu = None, dist_bin_m = 0, n_samples = 1,
                 coverage_fraction = Fin 1, mean_delta_bytes = Fin 98,
                 mean_time_since_last_pkt = Fin 0, dist_bin_center_m = 25 \<rparr>], None)"
proof -
  have h4: "one_rsu \<noteq> []" by (simp add: one_rsu_def)
  have hv: "haversine_m_np exact [Fin 0, NaN] [Fin 0, NaN] 0 0 = [Fin 0, NaN]"
    by (simp add: haversine_m_np_def haversine_elem_Fin haversine_m_exact_same haversine_elem_NaN)
  have rd: "ref_dists exact [Fin 0, NaN] [Fin 0, NaN] one_rsu 0 = [Fin 0]"
    "ref_dists exact [Fin 0, NaN] [Fin 0, NaN] one_rsu (Suc 0) = [NaN]"
    by (simp_all add: ref_dists_def one_rsu_def hv)
  have k: "np_argmin [Fin 0] = 0" "np_argmin [NaN] = 0" by (simp_all add: np_argmin_def)
  show ?thesis
    unfolding main_profiles_def add_distance_features_metrics_Inr [OF demo_cols h4]
    by (simp add: one_rsu_def demo_metrics_def set_col_def dist_col_def hv rd [unfolded one_rsu_def] k
        upt_conv_Cons build_range_profile_nearest_def bin_of_def fin_key_def groupby_def
        keyed_rows_def agg_row_def col_mean_def)
qed

subsection \<open>Range profiles\<close>

lemma keyed_rows_snoc:
  "keyed_rows (ks @ [k]) = keyed_rows ks @ (case k of None \<Rightarrow> [] | Some k' \<Rightarrow> [(k', length ks)])"
  by (simp add: keyed_rows_def)

lemma group_indices:
  "map snd (filter (\<lambda>p. fst p = k) (keyed_rows keys))
     = filter (\<lambda>i. keys ! i = Some k) [0..<length keys]"
proof (induction keys rule: rev_induct)
  case Nil
  then show ?case by (simp add: keyed_rows_def)
next
  case (snoc x xs)
  have "filter (\<lambda>i. (xs @ [x]) ! i = Some k) [0..<length xs]
          = filter (\<lambda>i. xs ! i = Some k) [0..<length xs]"
    by (rule filter_cong) (simp_all add: nth_append)
  with snoc show ?case
    by (cases x) (auto simp: keyed_rows_snoc)
qed

lemma keyed_keys_set:
  "fst ` set (keyed_rows keys) = {k. Some k \<in> set keys}"
proof (induction keys rule: rev_induct)
  case Nil
  then show ?case by (simp add: keyed_rows_def)
next
  case (snoc x xs)
  then show ?case by (cases x) (auto simp: keyed_rows_snoc)
qed

lemma keyed_length:
  "length (keyed_rows keys) = length (filter (\<lambda>k. k \<noteq> None) keys)"
proof (induction keys rule: rev_induct)
  case Nil
  then show ?case by (simp add: keyed_rows_def)
next
  case (snoc x xs)
  then show ?case by (cases x) (auto simp: keyed_rows_snoc)
qed

lemma groupby_eq:
  "groupby keys = map (\<lambda>k. (k, filter (\<lambda>i. keys ! i = Some k) [0..<length keys]))
                      (sort (remdups (map fst (keyed_rows keys))))"
  by (simp add: groupby_def group_indices Let_def)

lemma groupby_keys: "map fst (groupby keys) = sort (remdups (map fst (keyed_rows keys)))"
  by (simp add: groupby_eq comp_def)

lemma groupby_strict_sorted: "sorted_wrt (<) (map fst (groupby keys))"
  by (simp add: groupby_keys strict_sorted_iff)

lemma count_filter_fst:
  "length (filter (\<lambda>p. fst p = k) xs) = count_list (map fst xs) k"
  by (induction xs) auto

lemma groupby_sizes:
  "sum_list (map (\<lambda>g. length (snd g)) (groupby keys)) = length (filter (\<lambda>k. k \<noteq> None) keys)"
proof -
  let ?K = "map fst (keyed_rows keys)"
  have "sum_list (map (\<lambda>g. length (snd g)) (groupby keys))
          = sum_list (map (\<lambda>k. length (filter (\<lambda>p. fst p = k) (keyed_rows keys)))
                          (sort (remdups ?K)))"
    by (simp add: groupby_def Let_def comp_def)
  also have "\<dots> = sum_list (map (count_list ?K) (sort (remdups ?K)))"
    by (simp only: count_filter_fst)
  also have "\<dots> = sum (count_list ?K) (set (sort (remdups ?K)))"
    by (rule sum_list_distinct_conv_sum_set) simp
  also have "\<dots> = sum (count_list ?K) (set ?K)" by simp
  also have "\<dots> = length ?K" by (rule sum_count_set) simp_all
  finally show ?thesis by (simp add: keyed_length)
qed

lemma unique_key:
  "distinct (map f xs) \<Longrightarrow> k \<in> f ` set xs \<Longrightarrow> length (filter (\<lambda>g. f g = k) xs) = 1"
proof (induction xs)
  case Nil
  then show ?case by simp
next
  case (Cons x xs)
  show ?case
  proof (cases "f x = k")
    case True
    with Cons.prems(1) have "k \<notin> f ` set xs" by simp
    then have "\<forall>g\<in>set xs. f g \<noteq> k" by blast
    then have "filter (\<lambda>g. f g = k) xs = []" by (simp add: filter_empty_conv)
    with True show ?thesis by simp
  next
    case False
    with Cons show ?thesis by auto
  qed
qed

lemma groupby_unique_group:
  assumes "i < length keys" "keys ! i = Some k"
  shows "length (filter (\<lambda>g. fst g = k) (groupby keys)) = 1"
proof (rule unique_key)
  show "distinct (map fst (groupby keys))" by (simp add: groupby_keys)
  have "Some k \<in> set keys" using assms by (metis nth_mem)
  then have "k \<in> set (map fst (keyed_rows keys))" by (simp add: keyed_keys_set)
  then have "k \<in> set (map fst (groupby keys))" by (simp add: groupby_keys)
  then show "k \<in> fst ` set (groupby keys)" by simp
qed

lemma profile_rows_props:
  fixes keys :: "('k::linorder) option list"
  assumes n: "\<And>g. n_samples (mk g) = length (snd g)" and k: "\<And>g. kr (mk g) = fst g"
  shows "sum_list (map n_samples (map mk (groupby keys))) = length (filter (\<lambda>k. k \<noteq> None) keys)"
    and "i < length keys \<Longrightarrow> keys ! i = Some key \<Longrightarrow>
           length (filter (\<lambda>r. kr r = key) (map mk (groupby keys))) = 1"
    and "map kr (map mk (groupby keys)) = map fst (groupby keys)"
proof -
  show "sum_list (map n_samples (map mk (groupby keys))) = length (filter (\<lambda>k. k \<noteq> None) keys)"
    using groupby_sizes [of keys] by (simp add: comp_def n)
  show "length (filter (\<lambda>r. kr r = key) (map mk (groupby keys))) = 1"
    if "i < length keys" "keys ! i = Some key"
    using groupby_unique_group [OF that] by (simp add: filter_map comp_def k)
  show "map kr (map mk (groupby keys)) = map fst (groupby keys)"
    by (simp add: comp_def k)
qed

lemma bin_floor:
  assumes "0 < (b::real)"
  shows "of_int \<lfloor>x / b\<rfloor> * b \<le> x \<and> x < of_int \<lfloor>x / b\<rfloor> * b + b"
proof -
  have e: "x / b * b = x" using assms by simp
  have "of_int \<lfloor>x / b\<rfloor> * b \<le> x / b * b"
    using assms by (intro mult_right_mono of_int_floor_le) simp
  then have l: "of_int \<lfloor>x / b\<rfloor> * b \<le> x" unfolding e .
  have "x / b < of_int \<lfloor>x / b\<rfloor> + 1" by linarith
  then have "x / b * b < (of_int \<lfloor>x / b\<rfloor> + 1) * b"
    using assms by (rule mult_strict_right_mono)
  then have "x < of_int \<lfloor>x / b\<rfloor> * b + b" unfolding e by (simp add: algebra_simps)
  with l show ?thesis by simp
qed

lemma fin_key_bin:
  "b \<noteq> 0 \<Longrightarrow> fin_key (bin_of b d) = (case d of NaN \<Rightarrow> None | Fin x \<Rightarrow> Some (of_int \<lfloor>x / b\<rfloor> * b))"
  by (cases d) (simp_all add: fin_key_def bin_of_def)

lemma count_valid_keys:
  "b \<noteq> 0 \<Longrightarrow>
     length (filter (\<lambda>k. k \<noteq> None) (map fin_key (map (bin_of b) dcol)))
       = length (filter (\<lambda>d. \<not> isnan d) dcol)"
proof (induction dcol)
  case Nil
  then show ?case by simp
next
  case (Cons d ds)
  then show ?case by (cases d) (simp_all add: fin_key_bin)
qed

lemma count_valid_keys_grouped:
  "b \<noteq> 0 \<Longrightarrow> length nearest = length dcol \<Longrightarrow>
     length (filter (\<lambda>k. k \<noteq> None)
               (map (\<lambda>(r, v). map_option (Pair r) (fin_key v)) (zip nearest (map (bin_of b) dcol))))
       = length (filter (\<lambda>d. \<not> isnan d) dcol)"
proof (induction nearest dcol rule: list_induct2')
  case (4 r rs d ds)
  then show ?case by (cases d) (simp_all add: fin_key_bin)
qed simp_all


lemma filter_length_cong:
  "(\<And>x. x \<in> set xs \<Longrightarrow> P x = Q x) \<Longrightarrow> length (filter P xs) = length (filter Q xs)"
  by (induction xs) auto


lemma groupby_members:
  assumes "g \<in> set (groupby keys)"
  shows "snd g = filter (\<lambda>i. keys ! i = Some (fst g)) [0..<length keys]"
    and "snd g \<noteq> []"
proof -
  from assms obtain k where k: "k \<in> set (map fst (keyed_rows keys))"
    and g: "g = (k, filter (\<lambda>i. keys ! i = Some k) [0..<length keys])"
    unfolding groupby_eq by auto
  from g show "snd g = filter (\<lambda>i. keys ! i = Some (fst g)) [0..<length keys]" by simp
  from k have "Some k \<in> set keys" using keyed_keys_set [of keys] by auto
  then obtain i where "i < length keys" "keys ! i = Some k" by (meson in_set_conv_nth)
  then have "i \<in> set (filter (\<lambda>i. keys ! i = Some k) [0..<length keys])" by simp
  then have "filter (\<lambda>i. keys ! i = Some k) [0..<length keys] \<noteq> []" by (metis empty_iff list.set(1))
  with g show "snd g \<noteq> []" by simp
qed

text \<open>
  C3. For an enhanced table (distance, activity, byte and silence columns and the nearest
  reference of every row) and a strictly positive bin width, the nearest-profile build
  returns rows such that: every sample with a valid nearest distance belongs to exactly
  one row, the row of the bin \<open>floor (distance / bin_m) * bin_m\<close> (and of the sample's
  reference, when the rows are kept apart by reference), and a sample without a distance
  belongs to none; every row counts exactly the samples that belong to it, of which
  there is at least one, and carries the means of their activity, byte and silence
  columns and the centre of its bin; so the counts add up to the number of samples with
  a valid distance; the lower edge of the bin of a distance is at most the distance,
  which is less than the edge plus the width; and the rows are strictly sorted by
  reference, then lower edge.
\<close>

theorem nearest_profile_bins_every_valid_sample:
  assumes dc: "float_cols metrics ''dist_from_rsu_m'' = Some dcol"
    and hp: "float_cols metrics ''has_pkts'' = Some has_pkts"
    and db: "float_cols metrics ''delta_bytes'' = Some delta_bytes"
    and tl: "float_cols metrics ''time_since_last_pkt'' = Some tslp"
    and nr: "nearest_rsu metrics = Some nearest"
    and len: "length nearest = length dcol"
    and pos: "0 < bin_m"
  shows "\<exists>rows. build_range_profile_nearest metrics bin_m = Inr rows
     \<and> (\<forall>i<length dcol. \<not> isnan (dcol ! i) \<longrightarrow>
           length (filter (\<lambda>r. in_row bin_m dcol nearest r i) rows) = 1)
     \<and> (\<forall>i<length dcol. isnan (dcol ! i) \<longrightarrow>
           filter (\<lambda>r. in_row bin_m dcol nearest r i) rows = [])
     \<and> (\<forall>r\<in>set rows.
           filter (in_row bin_m dcol nearest r) [0..<length dcol] \<noteq> []
         \<and> n_samples r = length (filter (in_row bin_m dcol nearest r) [0..<length dcol])
         \<and> coverage_fraction r
             = col_mean (map (\<lambda>i. has_pkts ! i) (filter (in_row bin_m dcol nearest r) [0..<length dcol]))
         \<and> mean_delta_bytes r
             = col_mean (map (\<lambda>i. delta_bytes ! i) (filter (in_row bin_m dcol nearest r) [0..<length dcol]))
         \<and> mean_time_since_last_pkt r
             = col_mean (map (\<lambda>i. tslp ! i) (filter (in_row bin_m dcol nearest r) [0..<length dcol]))
         \<and> dist_bin_center_m r = dist_bin_m r + bin_m / 2)
     \<and> sum_list (map n_samples rows) = length (filter (\<lambda>d. \<not> isnan d) dcol)
     \<and> (\<forall>i<length dcol. \<forall>x. dcol ! i = Fin x \<longrightarrow>
           of_int \<lfloor>x / bin_m\<rfloor> * bin_m \<le> x \<and> x < of_int \<lfloor>x / bin_m\<rfloor> * bin_m + bin_m)
     \<and> sorted_wrt (<) (map (\<lambda>r. (case pr_nearest_rsu r of None \<Rightarrow> [] | Some s \<Rightarrow> s,
                                    dist_bin_m r)) rows)"
proof -
  have nz: "bin_m \<noteq> 0" using pos by simp
  define key where
    "key = (\<lambda>r::profile_row. (case pr_nearest_rsu r of None \<Rightarrow> [] | Some s \<Rightarrow> s, dist_bin_m r))"
  define bin where "bin = (\<lambda>x. of_int \<lfloor>x / bin_m\<rfloor> * bin_m)"
  have fl: "\<And>x. bin x \<le> x \<and> x < bin x + bin_m"
    unfolding bin_def by (rule bin_floor [OF pos])
  show ?thesis
  proof (cases "length (remdups nearest) > 1")
    case True
    define keys where
      "keys = map (\<lambda>(r, b). map_option (Pair r) (fin_key b)) (zip nearest (map (bin_of bin_m) dcol))"
    define mk where
      "mk = (\<lambda>((r, b), idxs). agg_row has_pkts delta_bytes tslp bin_m (Some r) b idxs)"
    define rows where "rows = map mk (groupby keys)"
    have res: "build_range_profile_nearest metrics bin_m = Inr rows"
      using True
      by (simp add: build_range_profile_nearest_def dc hp db tl nr Let_def rows_def mk_def keys_def)
    have n: "\<And>g. n_samples (mk g) = length (snd g)"
      by (simp add: mk_def agg_row_def split: prod.splits)
    have k: "\<And>g. key (mk g) = fst g"
      by (simp add: mk_def key_def agg_row_def split: prod.splits)
    have pn: "\<And>r. r \<in> set rows \<Longrightarrow> pr_nearest_rsu r = Some (fst (key r))"
      by (auto simp: rows_def mk_def key_def agg_row_def split: prod.splits)
    have lk: "length keys = length dcol" using len by (simp add: keys_def)
    have cv: "length (filter (\<lambda>k. k \<noteq> None) keys) = length (filter (\<lambda>d. \<not> isnan d) dcol)"
      unfolding keys_def by (rule count_valid_keys_grouped [OF nz len])
    have s1: "sum_list (map n_samples rows) = length (filter (\<lambda>d. \<not> isnan d) dcol)"
      unfolding rows_def cv [symmetric] by (rule profile_rows_props(1) [OF n k])
    have "map key rows = map fst (groupby keys)"
      unfolding rows_def by (rule profile_rows_props(3) [OF n k])
    then have s3: "sorted_wrt (<) (map key rows)"
      by (simp only: groupby_strict_sorted)
    have s2: "\<forall>i<length dcol. \<forall>x. dcol ! i = Fin x \<longrightarrow>
           length (filter (\<lambda>r. dist_bin_m r = bin x
                             \<and> (pr_nearest_rsu r = None
                                  \<or> pr_nearest_rsu r = Some (nearest ! i))) rows) = 1
           \<and> bin x \<le> x \<and> x < bin x + bin_m"
    proof (intro allI impI)
      fix i x assume i: "i < length dcol" and d: "dcol ! i = Fin x"
      have ki: "keys ! i = Some (nearest ! i, bin x)"
        using i len d by (simp add: keys_def bin_def fin_key_bin [OF nz])
      have il: "i < length keys" using i lk by simp
      have one: "length (filter (\<lambda>r. key r = (nearest ! i, bin x)) rows) = 1"
        unfolding rows_def by (rule profile_rows_props(2) [OF n k il ki])
      have "length (filter (\<lambda>r. dist_bin_m r = bin x
                             \<and> (pr_nearest_rsu r = None
                                  \<or> pr_nearest_rsu r = Some (nearest ! i))) rows)
            = length (filter (\<lambda>r. key r = (nearest ! i, bin x)) rows)"
      proof (rule filter_length_cong)
        fix r assume "r \<in> set rows"
        from pn [OF this] show "(dist_bin_m r = bin x
                 \<and> (pr_nearest_rsu r = None \<or> pr_nearest_rsu r = Some (nearest ! i)))
               = (key r = (nearest ! i, bin x))"
          by (auto simp: key_def)
      qed
      with one fl [of x]
      show "length (filter (\<lambda>r. dist_bin_m r = bin x
                             \<and> (pr_nearest_rsu r = None
                                  \<or> pr_nearest_rsu r = Some (nearest ! i))) rows) = 1
           \<and> bin x \<le> x \<and> x < bin x + bin_m"
        by simp
    qed
    have s4: "\<forall>r\<in>set rows.
           filter (in_row bin_m dcol nearest r) [0..<length dcol] \<noteq> []
         \<and> n_samples r = length (filter (in_row bin_m dcol nearest r) [0..<length dcol])
         \<and> coverage_fraction r
             = col_mean (map (\<lambda>i. has_pkts ! i) (filter (in_row bin_m dcol nearest r) [0..<length dcol]))
         \<and> mean_delta_bytes r
             = col_mean (map (\<lambda>i. delta_bytes ! i) (filter (in_row bin_m dcol nearest r) [0..<length dcol]))
         \<and> mean_time_since_last_pkt r
             = col_mean (map (\<lambda>i. tslp ! i) (filter (in_row bin_m dcol nearest r) [0..<length dcol]))
         \<and> dist_bin_center_m r = dist_bin_m r + bin_m / 2"
    proof
      fix r assume "r \<in> set rows"
      then obtain g where g: "g \<in> set (groupby keys)" and r: "r = mk g"
        by (auto simp: rows_def)
      have "filter (\<lambda>i. keys ! i = Some (fst g)) [0..<length keys]
              = filter (in_row bin_m dcol nearest r) [0..<length dcol]"
        unfolding lk
      proof (rule filter_cong [OF refl])
        fix i assume "i \<in> set [0..<length dcol]"
        then have i: "i < length dcol" by simp
        show "(keys ! i = Some (fst g)) = in_row bin_m dcol nearest r i"
          proof (cases "dcol ! i")
          case NaN
          with i len show ?thesis
            by (simp add: keys_def in_row_def fin_key_bin [OF nz])
        next
          case (Fin x)
          with i len show ?thesis
            by (cases g) (auto simp: keys_def in_row_def fin_key_bin [OF nz] r mk_def agg_row_def)
        qed
      qed
      then have m: "snd g = filter (in_row bin_m dcol nearest r) [0..<length dcol]"
        using groupby_members(1) [OF g] by simp
      have ne: "snd g \<noteq> []" by (rule groupby_members(2) [OF g])
      have f: "n_samples r = length (snd g)"
        "coverage_fraction r = col_mean (map (\<lambda>i. has_pkts ! i) (snd g))"
        "mean_delta_bytes r = col_mean (map (\<lambda>i. delta_bytes ! i) (snd g))"
        "mean_time_since_last_pkt r = col_mean (map (\<lambda>i. tslp ! i) (snd g))"
        "dist_bin_center_m r = dist_bin_m r + bin_m / 2"
        unfolding r by (simp_all add: mk_def agg_row_def split: prod.splits)
      from ne f show "filter (in_row bin_m dcol nearest r) [0..<length dcol] \<noteq> []
         \<and> n_samples r = length (filter (in_row bin_m dcol nearest r) [0..<length dcol])
         \<and> coverage_fraction r
             = col_mean (map (\<lambda>i. has_pkts ! i) (filter (in_row bin_m dcol nearest r) [0..<length dcol]))
         \<and> mean_delta_bytes r
             = col_mean (map (\<lambda>i. delta_bytes ! i) (filter (in_row bin_m dcol nearest r) [0..<length dcol]))
         \<and> mean_time_since_last_pkt r
             = col_mean (map (\<lambda>i. tslp ! i) (filter (in_row bin_m dcol nearest r) [0..<length dcol]))
         \<and> dist_bin_center_m r = dist_bin_m r + bin_m / 2"
        unfolding m by simp
    qed
    have s5: "\<forall>i<length dcol. \<not> isnan (dcol ! i) \<longrightarrow>
           length (filter (\<lambda>r. in_row bin_m dcol nearest r i) rows) = 1"
    proof (intro allI impI)
      fix i assume i: "i < length dcol" and v: "\<not> isnan (dcol ! i)"
      then obtain x where x: "dcol ! i = Fin x" by (cases "dcol ! i") auto
      from s2 i x have "length (filter (\<lambda>r. dist_bin_m r = bin x
                             \<and> (pr_nearest_rsu r = None
                                  \<or> pr_nearest_rsu r = Some (nearest ! i))) rows) = 1"
        by blast
      then show "length (filter (\<lambda>r. in_row bin_m dcol nearest r i) rows) = 1"
        by (simp add: in_row_def x bin_def)
    qed
    have s6: "\<forall>i<length dcol. isnan (dcol ! i) \<longrightarrow>
           filter (\<lambda>r. in_row bin_m dcol nearest r i) rows = []"
    proof (intro allI impI)
      fix i assume "i < length dcol" and "isnan (dcol ! i)"
      then have "dcol ! i = NaN" by (cases "dcol ! i") auto
      then show "filter (\<lambda>r. in_row bin_m dcol nearest r i) rows = []"
        by (simp add: in_row_def)
    qed
    have s7: "\<forall>i<length dcol. \<forall>x. dcol ! i = Fin x \<longrightarrow> bin x \<le> x \<and> x < bin x + bin_m"
      using fl by blast
    from res s5 s6 s4 s1 s7 s3 show ?thesis unfolding key_def bin_def by blast
  next
    case False
    define keys where "keys = map fin_key (map (bin_of bin_m) dcol)"
    define mk where "mk = (\<lambda>(b, idxs). agg_row has_pkts delta_bytes tslp bin_m None b idxs)"
    define rows where "rows = map mk (groupby keys)"
    have res: "build_range_profile_nearest metrics bin_m = Inr rows"
      using False
      by (simp add: build_range_profile_nearest_def dc hp db tl nr Let_def rows_def mk_def keys_def)
    have n: "\<And>g. n_samples (mk g) = length (snd g)"
      by (simp add: mk_def agg_row_def split: prod.splits)
    have k: "\<And>g. dist_bin_m (mk g) = fst g"
      by (simp add: mk_def agg_row_def split: prod.splits)
    have pn: "\<And>r. r \<in> set rows \<Longrightarrow> pr_nearest_rsu r = None"
      by (auto simp: rows_def mk_def agg_row_def split: prod.splits)
    have lk: "length keys = length dcol" by (simp add: keys_def)
    have cv: "length (filter (\<lambda>k. k \<noteq> None) keys) = length (filter (\<lambda>d. \<not> isnan d) dcol)"
      unfolding keys_def by (rule count_valid_keys [OF nz])
    have s1: "sum_list (map n_samples rows) = length (filter (\<lambda>d. \<not> isnan d) dcol)"
      unfolding rows_def cv [symmetric] by (rule profile_rows_props(1) [OF n k])
    have kb: "map dist_bin_m rows = map fst (groupby keys)"
      unfolding rows_def by (rule profile_rows_props(3) [OF n k])
    have "map key rows = map (Pair []) (map dist_bin_m rows)"
      using pn by (simp add: key_def)
    then have "map key rows = map (Pair []) (map fst (groupby keys))"
      by (simp only: kb)
    moreover have "sorted_wrt (<) (map (Pair ([]::string)) (map fst (groupby keys)))"
      using groupby_strict_sorted [of keys] by (simp add: sorted_wrt_map less_prod_def)
    ultimately have s3: "sorted_wrt (<) (map key rows)" by simp
    have s2: "\<forall>i<length dcol. \<forall>x. dcol ! i = Fin x \<longrightarrow>
           length (filter (\<lambda>r. dist_bin_m r = bin x
                             \<and> (pr_nearest_rsu r = None
                                  \<or> pr_nearest_rsu r = Some (nearest ! i))) rows) = 1
           \<and> bin x \<le> x \<and> x < bin x + bin_m"
    proof (intro allI impI)
      fix i x assume i: "i < length dcol" and d: "dcol ! i = Fin x"
      have ki: "keys ! i = Some (bin x)"
        using i d by (simp add: keys_def bin_def fin_key_bin [OF nz])
      have il: "i < length keys" using i lk by simp
      have one: "length (filter (\<lambda>r. dist_bin_m r = bin x) rows) = 1"
        unfolding rows_def by (rule profile_rows_props(2) [OF n k il ki])
      have "length (filter (\<lambda>r. dist_bin_m r = bin x
                             \<and> (pr_nearest_rsu r = None
                                  \<or> pr_nearest_rsu r = Some (nearest ! i))) rows)
            = length (filter (\<lambda>r. dist_bin_m r = bin x) rows)"
      proof (rule filter_length_cong)
        fix r assume "r \<in> set rows"
        from pn [OF this] show "(dist_bin_m r = bin x
                 \<and> (pr_nearest_rsu r = None \<or> pr_nearest_rsu r = Some (nearest ! i)))
               = (dist_bin_m r = bin x)"
          by simp
      qed
      with one fl [of x]
      show "length (filter (\<lambda>r. dist_bin_m r = bin x
                             \<and> (pr_nearest_rsu r = None
                                  \<or> pr_nearest_rsu r = Some (nearest ! i))) rows) = 1
           \<and> bin x \<le> x \<and> x < bin x + bin_m"
        by simp
    qed
    have s4: "\<forall>r\<in>set rows.
           filter (in_row bin_m dcol nearest r) [0..<length dcol] \<noteq> []
         \<and> n_samples r = length (filter (in_row bin_m dcol nearest r) [0..<length dcol])
         \<and> coverage_fraction r
             = col_mean (map (\<lambda>i. has_pkts ! i) (filter (in_row bin_m dcol nearest r) [0..<length dcol]))
         \<and> mean_delta_bytes r
             = col_mean (map (\<lambda>i. delta_bytes ! i) (filter (in_row bin_m dcol nearest r) [0..<length dcol]))
         \<and> mean_time_since_last_pkt r
             = col_mean (map (\<lambda>i. tslp ! i) (filter (in_row bin_m dcol nearest r) [0..<length dcol]))
         \<and> dist_bin_center_m r = dist_bin_m r + bin_m / 2"
    proof
      fix r assume "r \<in> set rows"
      then obtain g where g: "g \<in> set (groupby keys)" and r: "r = mk g"
        by (auto simp: rows_def)
      have "filter (\<lambda>i. keys ! i = Some (fst g)) [0..<length keys]
              = filter (in_row bin_m dcol nearest r) [0..<length dcol]"
        unfolding lk
      proof (rule filter_cong [OF refl])
        fix i assume "i \<in> set [0..<length dcol]"
        then have i: "i < length dcol" by simp
        show "(keys ! i = Some (fst g)) = in_row bin_m dcol nearest r i"
          proof (cases "dcol ! i")
          case NaN
          with i show ?thesis
            by (simp add: keys_def in_row_def fin_key_bin [OF nz])
        next
          case (Fin x)
          with i show ?thesis
            by (cases g) (auto simp: keys_def in_row_def fin_key_bin [OF nz] r mk_def agg_row_def)
        qed
      qed
      then have m: "snd g = filter (in_row bin_m dcol nearest r) [0..<length dcol]"
        using groupby_members(1) [OF g] by simp
      have ne: "snd g \<noteq> []" by (rule groupby_members(2) [OF g])
      have f: "n_samples r = length (snd g)"
        "coverage_fraction r = col_mean (map (\<lambda>i. has_pkts ! i) (snd g))"
        "mean_delta_bytes r = col_mean (map (\<lambda>i. delta_bytes ! i) (snd g))"
        "mean_time_since_last_pkt r = col_mean (map (\<lambda>i. tslp ! i) (snd g))"
        "dist_bin_center_m r = dist_bin_m r + bin_m / 2"
        unfolding r by (simp_all add: mk_def agg_row_def split: prod.splits)
      from ne f show "filter (in_row bin_m dcol nearest r) [0..<length dcol] \<noteq> []
         \<and> n_samples r = length (filter (in_row bin_m dcol nearest r) [0..<length dcol])
         \<and> coverage_fraction r
             = col_mean (map (\<lambda>i. has_pkts ! i) (filter (in_row bin_m dcol nearest r) [0..<length dcol]))
         \<and> mean_delta_bytes r
             = col_mean (map (\<lambda>i. delta_bytes ! i) (filter (in_row bin_m dcol nearest r) [0..<length dcol]))
         \<and> mean_time_since_last_pkt r
             = col_mean (map (\<lambda>i. tslp ! i) (filter (in_row bin_m dcol nearest r) [0..<length dcol]))
         \<and> dist_bin_center_m r = dist_bin_m r + bin_m / 2"
        unfolding m by simp
    qed
    have s5: "\<forall>i<length dcol. \<not> isnan (dcol ! i) \<longrightarrow>
           length (filter (\<lambda>r. in_row bin_m dcol nearest r i) rows) = 1"
    proof (intro allI impI)
      fix i assume i: "i < length dcol" and v: "\<not> isnan (dcol ! i)"
      then obtain x where x: "dcol ! i = Fin x" by (cases "dcol ! i") auto
      from s2 i x have "length (filter (\<lambda>r. dist_bin_m r = bin x
                             \<and> (pr_nearest_rsu r = None
                                  \<or> pr_nearest_rsu r = Some (nearest ! i))) rows) = 1"
        by blast
      then show "length (filter (\<lambda>r. in_row bin_m dcol nearest r i) rows) = 1"
        by (simp add: in_row_def x bin_def)
    qed
    have s6: "\<forall>i<length dcol. isnan (dcol ! i) \<longrightarrow>
           filter (\<lambda>r. in_row bin_m dcol nearest r i) rows = []"
    proof (intro allI impI)
      fix i assume "i < length dcol" and "isnan (dcol ! i)"
      then have "dcol ! i = NaN" by (cases "dcol ! i") auto
      then show "filter (\<lambda>r. in_row bin_m dcol nearest r i) rows = []"
        by (simp add: in_row_def)
    qed
    have s7: "\<forall>i<length dcol. \<forall>x. dcol ! i = Fin x \<longrightarrow> bin x \<le> x \<and> x < bin x + bin_m"
      using fl by blast
    from res s5 s6 s4 s1 s7 s3 show ?thesis unfolding key_def bin_def by blast
  qed
qed


text \<open>The three occupied bins of the example table, each with one sample.\<close>

lemma demo_profile:
  "build_range_profile_nearest demo_enhanced 50 =
     Inr [\<lparr> pr_nearest_rsu = None, dist_bin_m = 0, n_samples = 1, coverage_fraction = Fin 1,
             mean_delta_bytes = Fin 98, mean_time_since_last_pkt = Fin 0, dist_bin_center_m = 25 \<rparr>,
          \<lparr> pr_nearest_rsu = None, dist_bin_m = 50, n_samples = 1, coverage_fraction = Fin 1,
             mean_delta_bytes = Fin 196, mean_time_since_last_pkt = Fin 0, dist_bin_center_m = 75 \<rparr>,
          \<lparr> pr_nearest_rsu = None, dist_bin_m = 100, n_samples = 1, coverage_fraction = Fin 1,
             mean_delta_bytes = Fin 98, mean_time_since_last_pkt = Fin 0, dist_bin_center_m = 125 \<rparr>]"
  by (simp add: build_range_profile_nearest_def demo_enhanced_def bin_of_def fin_key_def
      groupby_def keyed_rows_def agg_row_def col_mean_def Let_def upt_conv_Cons)

theorem nearest_profile_bins_every_valid_sample_witness:
  "\<exists>rows. build_range_profile_nearest demo_enhanced 50 = Inr rows
     \<and> (\<forall>i<length [Fin 10, Fin 60, Fin 120, NaN]. \<not> isnan ([Fin 10, Fin 60, Fin 120, NaN] ! i) \<longrightarrow>
           length (filter (\<lambda>r. in_row 50 [Fin 10, Fin 60, Fin 120, NaN] [''RSU1'', ''RSU1'', ''RSU1'', ''RSU1''] r i) rows) = 1)
     \<and> (\<forall>i<length [Fin 10, Fin 60, Fin 120, NaN]. isnan ([Fin 10, Fin 60, Fin 120, NaN] ! i) \<longrightarrow>
           filter (\<lambda>r. in_row 50 [Fin 10, Fin 60, Fin 120, NaN] [''RSU1'', ''RSU1'', ''RSU1'', ''RSU1''] r i) rows = [])
     \<and> (\<forall>r\<in>set rows.
           filter (in_row 50 [Fin 10, Fin 60, Fin 120, NaN] [''RSU1'', ''RSU1'', ''RSU1'', ''RSU1''] r) [0..<length [Fin 10, Fin 60, Fin 120, NaN]] \<noteq> []
         \<and> n_samples r = length (filter (in_row 50 [Fin 10, Fin 60, Fin 120, NaN] [''RSU1'', ''RSU1'', ''RSU1'', ''RSU1''] r) [0..<length [Fin 10, Fin 60, Fin 120, NaN]])
         \<and> coverage_fraction r
             = col_mean (map (\<lambda>i. [Fin 1, Fin 1, Fin 1, Fin 0] ! i) (filter (in_row 50 [Fin 10, Fin 60, Fin 120, NaN] [''RSU1'', ''RSU1'', ''RSU1'', ''RSU1''] r) [0..<length [Fin 10, Fin 60, Fin 120, NaN]]))
         \<and> mean_delta_bytes r
             = col_mean (map (\<lambda>i. [Fin 98, Fin 196, Fin 98, Fin 0] ! i) (filter (in_row 50 [Fin 10, Fin 60, Fin 120, NaN] [''RSU1'', ''RSU1'', ''RSU1'', ''RSU1''] r) [0..<length [Fin 10, Fin 60, Fin 120, NaN]]))
         \<and> mean_time_since_last_pkt r
             = col_mean (map (\<lambda>i. [Fin 0, Fin 0, Fin 0, Fin 1] ! i) (filter (in_row 50 [Fin 10, Fin 60, Fin 120, NaN] [''RSU1'', ''RSU1'', ''RSU1'', ''RSU1''] r) [0..<length [Fin 10, Fin 60, Fin 120, NaN]]))
         \<and> dist_bin_center_m r = dist_bin_m r + 50 / 2)
     \<and> sum_list (map n_samples rows) = length (filter (\<lambda>d. \<not> isnan d) [Fin 10, Fin 60, Fin 120, NaN])
     \<and> (\<forall>i<length [Fin 10, Fin 60, Fin 120, NaN]. \<forall>x. [Fin 10, Fin 60, Fin 120, NaN] ! i = Fin x \<longrightarrow>
           of_int \<lfloor>x / 50\<rfloor> * 50 \<le> x \<and> x < of_int \<lfloor>x / 50\<rfloor> * 50 + 50)
     \<and> sorted_wrt (<) (map (\<lambda>r. (case pr_nearest_rsu r of None \<Rightarrow> [] | Some s \<Rightarrow> s,
                                    dist_bin_m r)) rows)"
proof -
  have h1: "float_cols demo_enhanced ''dist_from_rsu_m'' = Some [Fin 10, Fin 60, Fin 120, NaN]"
    and h2: "float_cols demo_enhanced ''has_pkts'' = Some [Fin 1, Fin 1, Fin 1, Fin 0]"
    and h3: "float_cols demo_enhanced ''delta_bytes'' = Some [Fin 98, Fin 196, Fin 98, Fin 0]"
    and h4: "float_cols demo_enhanced ''time_since_last_pkt'' = Some [Fin 0, Fin 0, Fin 0, Fin 1]"
    and h5: "nearest_rsu demo_enhanced = Some [''RSU1'', ''RSU1'', ''RSU1'', ''RSU1'']"
    by (simp_all add: demo_enhanced_def)
  have h6: "length [''RSU1'', ''RSU1'', ''RSU1'', ''RSU1''] = length [Fin 10, Fin 60, Fin 120, NaN]"
    by simp
  have h7: "(0::real) < 50" by simp
  show ?thesis
    by (rule nearest_profile_bins_every_valid_sample [OF h1 h2 h3 h4 h5 h6 h7])
qed

subsection \<open>Timeline repair\<close>

lemma bool_mean_gt:
  "pf_gt (bool_mean bs) (1 / real k) = (k * length (filter (\<lambda>b. b) bs) > length bs)" if "0 < k"
proof (cases "bs = []")
  case True
  then show ?thesis by (simp add: bool_mean_def pf_gt_def)
next
  case False
  then have l: "0 < real (length bs)" by simp
  have "(1 / real k < real (length (filter (\<lambda>b. b) bs)) / real (length bs))
          = (real (length bs) < real k * real (length (filter (\<lambda>b. b) bs)))"
    using l that by (simp add: field_simps)
  also have "\<dots> = (length bs < k * length (filter (\<lambda>b. b) bs))"
    by (metis of_nat_less_iff of_nat_mult)
  finally show ?thesis using False by (simp add: bool_mean_def pf_gt_def)
qed

lemma pair_diffs_None: "dropna_f (pair_diffs (x # replicate k None)) = []"
proof (induction k arbitrary: x)
  case 0
  then show ?case by (simp add: dropna_f_def)
next
  case (Suc k)
  from Suc [of None] show ?case by (cases x) (simp_all add: dropna_f_def)
qed


lemma wrap64_small: "0 \<le> x \<Longrightarrow> x < 2 ^ 63 \<Longrightarrow> wrap64 x = x"
  by (simp add: wrap64_def)

lemma pair_diffs_sorted:
  assumes "sorted s" and "\<forall>a\<in>set s. \<forall>b\<in>set s. b - a < 2 ^ 63"
  shows "dropna_f (pair_diffs (map Some s @ replicate k None))
     = map (\<lambda>(a, b). real_of_int (b - a) / 1000000000) (zip s (tl s))"
  using assms
proof (induction s)
  case Nil
  show ?case
  proof (cases k)
    case 0
    then show ?thesis by (simp add: dropna_f_def)
  next
    case (Suc k')
    then show ?thesis using pair_diffs_None [of None k'] by simp
  qed
next
  case (Cons a s)
  show ?case
  proof (cases s)
    case Nil
    then show ?thesis using pair_diffs_None [of "Some a" k] by simp
  next
    case c: (Cons b s')
    from Cons.prems c have "0 \<le> b - a" and "b - a < 2 ^ 63" by simp_all
    then have w: "wrap64 (b - a) = b - a" and n: "b - a \<noteq> - (2 ^ 63)"
      by (simp_all add: wrap64_small)
    from Cons.prems have "sorted s" and "\<forall>a\<in>set s. \<forall>b\<in>set s. b - a < 2 ^ 63" by simp_all
    with Cons.IH have "dropna_f (pair_diffs (map Some s @ replicate k None))
       = map (\<lambda>(a, b). real_of_int (b - a) / 1000000000) (zip s (tl s))" by simp
    with c w n show ?thesis by (simp add: dropna_f_def Let_def)
  qed
qed

lemma set_dropna_sort: "set (sort (dropna t)) = set (dropna t)"
  by simp

lemma diffs_refine:
  assumes "span_ok t"
  shows "dropna_f (diff_seconds (sort_values t)) = spec_consecutive_diffs t"
proof -
  have "dropna_f (diff_seconds (sort_values t)) = dropna_f (pair_diffs (sort_values t))"
    by (simp add: diff_seconds_def dropna_f_def)
  moreover have "dropna_f (pair_diffs (map Some (sort (dropna t))
                    @ replicate (length (filter (\<lambda>x. x = None) t)) None))
       = map (\<lambda>(a, b). real_of_int (b - a) / 1000000000)
             (zip (sort (dropna t)) (tl (sort (dropna t))))"
  proof (rule pair_diffs_sorted)
    show "sorted (sort (dropna t))" by simp
    show "\<forall>a\<in>set (sort (dropna t)). \<forall>b\<in>set (sort (dropna t)). b - a < 2 ^ 63"
      using assms unfolding set_dropna_sort span_ok_def .
  qed
  ultimately show ?thesis
    by (simp add: sort_values_def spec_consecutive_diffs_def Let_def)
qed

lemma dropna_one_hz:
  "dropna (one_hz_steps base n) = map (\<lambda>i. base + int i * 1000000000) [0..<n]"
  by (induction n) (simp_all add: dropna_def one_hz_steps_def)

lemma strictly_ordered_one_hz: "strictly_ordered (one_hz_steps base n)"
proof -
  have "list_all (\<lambda>x. x \<noteq> None) (one_hz_steps base n)"
    by (simp add: one_hz_steps_def list_all_iff)
  moreover have "sorted_wrt (<) (map (\<lambda>i. base + int i * 1000000000) [0..<n])"
    by (simp add: sorted_wrt_map sorted_wrt_iff_nth_less)
  ultimately show ?thesis by (simp add: strictly_ordered_def dropna_one_hz)
qed

lemma one_hz_Inr:
  "one_hz base n = Inr out \<Longrightarrow> out = one_hz_steps base n \<and> one_hz_fits base n"
  by (simp add: one_hz_def split: if_splits)

lemma one_hz_Inl:
  "one_hz base n = Inl e \<Longrightarrow> e = OverflowError \<and> \<not> one_hz_fits base n"
  by (simp add: one_hz_def split: if_splits)

lemma dropna_first:
  "dropna t = base # rest \<Longrightarrow> \<exists>pre post. t = pre @ Some base # post \<and> (\<forall>x\<in>set pre. x = None)"
proof (induction t)
  case Nil
  then show ?case by (simp add: dropna_def)
next
  case (Cons x t)
  show ?case
  proof (cases x)
    case None
    with Cons.prems have "dropna t = base # rest" by (simp add: dropna_def)
    from Cons.IH [OF this] obtain pre post where
      "t = pre @ Some base # post" "\<forall>x\<in>set pre. x = None" by blast
    with None have "x # t = (None # pre) @ Some base # post \<and> (\<forall>x\<in>set (None # pre). x = None)"
      by simp
    then show ?thesis by blast
  next
    case (Some v)
    with Cons.prems have "v = base" by (simp add: dropna_def)
    with Some have "x # t = [] @ Some base # t \<and> (\<forall>x\<in>set []. x = None)" by simp
    then show ?thesis by blast
  qed
qed

lemma coarse_has_parsed: "spec_coarse t \<Longrightarrow> dropna t \<noteq> []"
  by (auto simp: spec_coarse_def spec_consecutive_diffs_def Let_def)


lemma parse_refines:
  assumes span: "span_ok t"
  shows "parse_timestamp_series t = spec_timeline_repair t"
proof -
  have u: "pf_gt (bool_mean (map (\<lambda>x. x = None) t)) (1 / 2) = spec_unparseable t"
    using bool_mean_gt [of 2 "map (\<lambda>x. x = None) t"]
    by (simp add: spec_unparseable_def filter_map comp_def)
  have z: "\<And>ds. pf_gt (bool_mean (map (\<lambda>d. d = (0::real)) ds)) (1 / 5)
             = (5 * length (filter (\<lambda>d. d = 0) ds) > length ds)"
    using bool_mean_gt [of 5] by (simp add: filter_map comp_def)
  note dr = diffs_refine [OF span]
  show ?thesis
  proof (cases "spec_unparseable t")
    case True
    then show ?thesis by (simp add: parse_timestamp_series_def u spec_timeline_repair_def)
  next
    case False
    show ?thesis
    proof (cases "spec_coarse t")
      case True
      with coarse_has_parsed obtain base rest where b: "dropna t = base # rest"
        by (cases "dropna t") auto
      from True have "spec_consecutive_diffs t \<noteq> []"
        and "5 * length (filter (\<lambda>d. d = 0) (spec_consecutive_diffs t))
               > length (spec_consecutive_diffs t)
             \<or> median (spec_consecutive_diffs t) = Fin 0"
        by (simp_all add: spec_coarse_def Let_def)
      with False True b show ?thesis
        by (simp add: parse_timestamp_series_def u z dr spec_timeline_repair_def Let_def)
    next
      case nc: False
      with False show ?thesis
        by (auto simp: parse_timestamp_series_def u z dr spec_timeline_repair_def
            spec_coarse_def Let_def)
    qed
  qed
qed

text \<open>
  C4, as the code has it. For a series whose parsed timestamps lie less than \<open>2\<^sup>6\<^sup>3\<close>
  nanoseconds apart, \<open>parse_timestamp_series\<close> computes the case analysis of the
  specification: with more than half of the values unparsed, one-second steps of the
  same length from the epoch; otherwise, with more than 20% zero differences or a zero
  median difference (differences of the parsed timestamps in sorted order), one-second
  steps from the first parsed timestamp in row order; in the remaining case the parsed
  timestamps are returned unchanged. The one-second steps are returned when the last of
  them fits the 64-bit range of timestamps, and the function raises otherwise; it raises
  in no other case. A result has one entry per input row, and in the two rebuilding
  cases it is strictly ordered.
\<close>

theorem timeline_repair_cases:
  assumes span: "span_ok t"
  shows "parse_timestamp_series t = spec_timeline_repair t
   \<and> (spec_unparseable t \<longrightarrow> parse_timestamp_series t = one_hz 0 (length t))
   \<and> (\<not> spec_unparseable t \<and> spec_coarse t \<longrightarrow>
        (\<exists>base pre post. t = pre @ Some base # post \<and> (\<forall>x\<in>set pre. x = None)
           \<and> parse_timestamp_series t = one_hz base (length t)))
   \<and> (\<not> spec_unparseable t \<and> \<not> spec_coarse t \<longrightarrow> parse_timestamp_series t = Inr t)
   \<and> (one_hz_fits base n \<longrightarrow> one_hz base n = Inr (one_hz_steps base n))
   \<and> (\<not> one_hz_fits base n \<longrightarrow> one_hz base n = Inl OverflowError)
   \<and> length (one_hz_steps base n) = n
   \<and> strictly_ordered (one_hz_steps base n)
   \<and> (\<forall>out. parse_timestamp_series t = Inr out \<longrightarrow>
         length out = length t
         \<and> (spec_unparseable t \<or> spec_coarse t \<longrightarrow> strictly_ordered out))
   \<and> (\<forall>e. parse_timestamp_series t = Inl e \<longrightarrow>
         e = OverflowError \<and> (spec_unparseable t \<or> spec_coarse t))"
proof -
  note pr = parse_refines [OF span]
  have c1: "spec_unparseable t \<longrightarrow> parse_timestamp_series t = one_hz 0 (length t)"
    unfolding pr by (simp add: spec_timeline_repair_def)
  have c2: "\<not> spec_unparseable t \<and> spec_coarse t \<longrightarrow>
        (\<exists>base pre post. t = pre @ Some base # post \<and> (\<forall>x\<in>set pre. x = None)
           \<and> parse_timestamp_series t = one_hz base (length t))"
  proof
    assume a: "\<not> spec_unparseable t \<and> spec_coarse t"
    with coarse_has_parsed obtain base rest where b: "dropna t = base # rest"
      by (cases "dropna t") auto
    from dropna_first [OF b] obtain pre post where
      "t = pre @ Some base # post" "\<forall>x\<in>set pre. x = None" by blast
    moreover have "parse_timestamp_series t = one_hz base (length t)"
      unfolding pr using a b by (simp add: spec_timeline_repair_def)
    ultimately show "\<exists>base pre post. t = pre @ Some base # post \<and> (\<forall>x\<in>set pre. x = None)
           \<and> parse_timestamp_series t = one_hz base (length t)" by blast
  qed
  have c3: "\<not> spec_unparseable t \<and> \<not> spec_coarse t \<longrightarrow> parse_timestamp_series t = Inr t"
    unfolding pr by (simp add: spec_timeline_repair_def)
  have c4: "one_hz_fits base n \<longrightarrow> one_hz base n = Inr (one_hz_steps base n)"
    and c5: "\<not> one_hz_fits base n \<longrightarrow> one_hz base n = Inl OverflowError"
    by (simp_all add: one_hz_def)
  have c6: "length (one_hz_steps base n) = n" by (simp add: one_hz_steps_def)
  have c7: "strictly_ordered (one_hz_steps base n)" by (rule strictly_ordered_one_hz)
  have c8: "\<forall>out. parse_timestamp_series t = Inr out \<longrightarrow>
         length out = length t
         \<and> (spec_unparseable t \<or> spec_coarse t \<longrightarrow> strictly_ordered out)"
  proof (intro allI impI)
    fix out assume o: "parse_timestamp_series t = Inr out"
    show "length out = length t
         \<and> (spec_unparseable t \<or> spec_coarse t \<longrightarrow> strictly_ordered out)"
    proof (cases "spec_unparseable t \<or> spec_coarse t")
      case True
      define base where "base = (if spec_unparseable t then 0 else hd (dropna t))"
      from True have "spec_timeline_repair t = one_hz base (length t)"
        by (auto simp: base_def spec_timeline_repair_def)
      with o pr have "one_hz base (length t) = Inr out" by simp
      from one_hz_Inr [OF this] have "out = one_hz_steps base (length t)" by simp
      then show ?thesis by (simp add: strictly_ordered_one_hz) (simp add: one_hz_steps_def)
    next
      case False
      with o pr have "out = t" by (simp add: spec_timeline_repair_def)
      with False show ?thesis by simp
    qed
  qed
  have c9: "\<forall>e. parse_timestamp_series t = Inl e \<longrightarrow>
         e = OverflowError \<and> (spec_unparseable t \<or> spec_coarse t)"
  proof (intro allI impI)
    fix e assume o: "parse_timestamp_series t = Inl e"
    show "e = OverflowError \<and> (spec_unparseable t \<or> spec_coarse t)"
    proof (cases "spec_unparseable t \<or> spec_coarse t")
      case True
      define base where "base = (if spec_unparseable t then 0 else hd (dropna t))"
      from True have "spec_timeline_repair t = one_hz base (length t)"
        by (auto simp: base_def spec_timeline_repair_def)
      with o pr have "one_hz base (length t) = Inl e" by simp
      from one_hz_Inl [OF this] True show ?thesis by simp
    next
      case False
      with o pr show ?thesis by (simp add: spec_timeline_repair_def)
    qed
  qed
  from pr c1 c2 c3 c4 c5 c6 c7 c8 c9 show ?thesis by blast
qed

lemmas timeline_eval = spec_unparseable_def spec_coarse_def spec_consecutive_diffs_def
  dropna_def median_def one_hz_def one_hz_fits_def one_hz_steps_def INT64_MAX_def span_ok_def
  Let_def

theorem timeline_repair_cases_witness:
  "parse_timestamp_series [None, None, Some 5] = Inr (one_hz_steps 0 3)
   \<and> parse_timestamp_series [None, Some 7, Some 7, Some 7] = Inr (one_hz_steps 7 4)
   \<and> strictly_ordered (one_hz_steps 7 4)
   \<and> parse_timestamp_series [Some 0, Some 1000000000] = Inr [Some 0, Some 1000000000]
   \<and> parse_timestamp_series [Some 9223372036000000000, Some 9223372036000000000,
        Some 9223372036000000000] = Inl OverflowError"
proof -
  let ?late = "[Some 9223372036000000000, Some 9223372036000000000,
        Some (9223372036000000000::int)]"
  have s1: "span_ok [None, None, Some 5]" by (simp add: timeline_eval)
  have u1: "spec_unparseable [None, None, Some 5]" by (simp add: timeline_eval)
  have f1: "one_hz 0 3 = Inr (one_hz_steps 0 3)"
    by (simp add: one_hz_def one_hz_fits_def INT64_MAX_def)
  have s2: "span_ok [None, Some 7, Some 7, Some 7]" by (simp add: timeline_eval)
  have u2: "\<not> spec_unparseable [None, Some 7, Some 7, Some 7]"
    "spec_coarse [None, Some 7, Some 7, Some 7]"
    by (simp_all add: timeline_eval)
  have f2: "one_hz 7 4 = Inr (one_hz_steps 7 4)"
    by (simp add: one_hz_def one_hz_fits_def INT64_MAX_def)
  have s3: "span_ok [Some 0, Some 1000000000]" by (simp add: timeline_eval)
  have u3: "\<not> spec_unparseable [Some 0, Some 1000000000]
            \<and> \<not> spec_coarse [Some 0, Some 1000000000]"
    by (simp add: timeline_eval)
  have s4: "span_ok ?late" by (simp add: timeline_eval)
  have u4: "\<not> spec_unparseable ?late" "spec_coarse ?late"
    by (simp_all add: timeline_eval)
  have f4: "one_hz 9223372036000000000 3 = Inl OverflowError"
    by (simp add: one_hz_def one_hz_fits_def INT64_MAX_def)
  from timeline_repair_cases [OF s1] u1
  have "parse_timestamp_series [None, None, Some 5] = one_hz 0 (length [None, None, Some (5::int)])"
    by blast
  then have a: "parse_timestamp_series [None, None, Some 5] = Inr (one_hz_steps 0 3)"
    using f1 by (simp add: eval_nat_numeral)
  from timeline_repair_cases [OF s2] u2
  have "parse_timestamp_series [None, Some 7, Some 7, Some 7]
          = spec_timeline_repair [None, Some 7, Some 7, Some 7]" by blast
  then have b: "parse_timestamp_series [None, Some 7, Some 7, Some 7] = Inr (one_hz_steps 7 4)"
    using u2 f2 by (simp add: spec_timeline_repair_def dropna_def eval_nat_numeral)
  from timeline_repair_cases [OF s2, of 7 4]
  have c: "strictly_ordered (one_hz_steps 7 4)" by blast
  from timeline_repair_cases [OF s3] u3
  have d: "parse_timestamp_series [Some 0, Some 1000000000] = Inr [Some 0, Some 1000000000]"
    by blast
  from timeline_repair_cases [OF s4]
  have "parse_timestamp_series ?late = spec_timeline_repair ?late" by blast
  then have e: "parse_timestamp_series ?late = Inl OverflowError"
    using u4 f4 by (simp add: spec_timeline_repair_def dropna_def eval_nat_numeral)
  from a b c d e show ?thesis by blast
qed

text \<open>
  C4 as stated fails in its last part: two parsed timestamps in descending order have
  one non-zero difference, so they are returned as they are, which is not strictly
  time-ordered.
\<close>

theorem unordered_timestamps_pass_through:
  "parse_timestamp_series [Some 1000000000, Some 0] = Inr [Some 1000000000, Some 0]
   \<and> \<not> strictly_ordered [Some 1000000000, Some 0]"
  by (simp add: parse_timestamp_series_def bool_mean_def pf_gt_def sort_values_def dropna_def
      diff_seconds_def dropna_f_def median_def strictly_ordered_def wrap64_def Let_def)

subsection \<open>Elevation\<close>

lemma attempts_None:
  "svc key a = None \<Longrightarrow>
     attempts svc key a (Suc n)
       = (fst (attempts svc key (Suc a) n),
          Query key # Sleep (0.4 * real a) # snd (attempts svc key (Suc a) n))"
  by (simp split: prod.splits)

lemma attempts_Some:
  "svc key a = Some e \<Longrightarrow> attempts svc key a (Suc n) = (Some e, [Query key])"
  by simp

lemma attempts_other: "key' \<noteq> key \<Longrightarrow> count_list (snd (attempts svc key a n)) (Query key') = 0"
proof (induction n arbitrary: a)
  case 0
  then show ?case by simp
next
  case (Suc n)
  show ?case
  proof (cases "svc key a")
    case None
    with Suc.IH [OF Suc.prems, of "Suc a"] Suc.prems show ?thesis
      by (simp add: attempts_None del: attempts.simps)
  next
    case (Some e)
    with Suc.prems show ?thesis by (simp add: attempts_Some del: attempts.simps)
  qed
qed

lemma attempts_le: "count_list (snd (attempts svc key a n)) (Query key) \<le> n"
proof (induction n arbitrary: a)
  case 0
  then show ?case by simp
next
  case (Suc n)
  show ?case
  proof (cases "svc key a")
    case None
    with Suc [of "Suc a"] show ?thesis by (simp add: attempts_None del: attempts.simps)
  next
    case (Some e)
    then show ?thesis by (simp add: attempts_Some del: attempts.simps)
  qed
qed

lemma attempts_first_ok:
  "svc key a \<noteq> None \<Longrightarrow> count_list (snd (attempts svc key a (Suc n))) (Query key) = 1"
  by (auto simp: attempts_Some simp del: attempts.simps)

lemma attempts_all_fail:
  "\<forall>j. a \<le> j \<and> j < a + n \<longrightarrow> svc key j = None \<Longrightarrow>
     count_list (snd (attempts svc key a n)) (Query key) = n \<and> fst (attempts svc key a n) = None"
proof (induction n arbitrary: a)
  case 0
  then show ?case by simp
next
  case (Suc n)
  from Suc.prems have h: "svc key a = None" by simp
  from Suc.prems have "\<forall>j. Suc a \<le> j \<and> j < Suc a + n \<longrightarrow> svc key j = None" by simp
  from Suc.IH [OF this] h show ?case by (simp add: attempts_None del: attempts.simps)
qed

lemma attempts_shape:
  "snd (attempts svc key a n)
     = concat (map (\<lambda>j. [Query key, Sleep (0.4 * real j)]) [a..<a + failed_attempts svc key a n])
       @ (if failed_attempts svc key a n < n then [Query key] else [])"
proof (induction n arbitrary: a)
  case 0
  then show ?case by (simp add: failed_attempts_def)
next
  case (Suc n)
  have u: "[a..<a + Suc n] = a # [Suc a..<Suc a + n]" by (simp add: upt_rec)
  show ?case
  proof (cases "svc key a")
    case None
    define f where "f = failed_attempts svc key (Suc a) n"
    define rest where "rest = [Suc a..<Suc a + f]"
    have fa: "failed_attempts svc key a (Suc n) = Suc f"
      unfolding failed_attempts_def u f_def using None by simp
    have e: "[a..<a + Suc f] = a # rest" unfolding rest_def by (simp add: upt_rec)
    have ih: "snd (attempts svc key (Suc a) n)
        = concat (map (\<lambda>j. [Query key, Sleep (0.4 * real j)]) rest)
          @ (if f < n then [Query key] else [])"
      unfolding rest_def f_def by (rule Suc.IH)
    show ?thesis
      unfolding fa e using None by (simp add: attempts_None ih del: attempts.simps)
  next
    case (Some e)
    then have "failed_attempts svc key a (Suc n) = 0"
      unfolding failed_attempts_def u by simp
    with Some show ?thesis by simp
  qed
qed

lemma failed_attempts_le: "failed_attempts svc key a n \<le> n"
  unfolding failed_attempts_def using length_takeWhile_le [of _ "[a..<a + n]"] by simp


lemma resolve_point_eq:
  "resolve_point svc max_retries sleep_s key (cache, lg)
     = (cache(key \<mapsto> (case fst (attempts svc key 1 (nat max_retries)) of
                           Some e \<Rightarrow> e | None \<Rightarrow> NaN)),
        lg @ snd (attempts svc key 1 (nat max_retries)) @ [Sleep sleep_s])"
  by (auto simp: resolve_point_def Let_def split: prod.splits option.splits)

lemma fold_resolve_log:
  "snd (fold (resolve_point svc max_retries sleep_s) ks (cache, lg))
     = lg @ concat (map (\<lambda>key. snd (attempts svc key 1 (nat max_retries)) @ [Sleep sleep_s]) ks)"
  by (induction ks arbitrary: cache lg) (simp_all add: resolve_point_eq)

lemma fold_resolve_cache:
  "fst (fold (resolve_point svc max_retries sleep_s) ks (cache, lg)) key
     = (if key \<in> set ks
        then Some (case fst (attempts svc key 1 (nat max_retries)) of Some e \<Rightarrow> e | None \<Rightarrow> NaN)
        else cache key)"
proof (induction ks arbitrary: cache lg rule: rev_induct)
  case Nil
  then show ?case by simp
next
  case (snoc k ks)
  obtain c l where f: "fold (resolve_point svc max_retries sleep_s) ks (cache, lg) = (c, l)"
    by (cases "fold (resolve_point svc max_retries sleep_s) ks (cache, lg)")
  from snoc [of cache lg] f have
    "c key = (if key \<in> set ks
        then Some (case fst (attempts svc key 1 (nat max_retries)) of Some e \<Rightarrow> e | None \<Rightarrow> NaN)
        else cache key)" by simp
  then show ?case by (simp add: f resolve_point_eq)
qed

lemma count_blocks:
  assumes "distinct ks"
  shows "count_list (concat (map (\<lambda>key. snd (attempts svc key 1 n) @ [Sleep sleep_s]) ks)) (Query key)
     = (if key \<in> set ks then count_list (snd (attempts svc key 1 n)) (Query key) else 0)"
  using assms
proof (induction ks)
  case Nil
  then show ?case by simp
next
  case (Cons k ks)
  show ?case
  proof (cases "k = key")
    case True
    with Cons show ?thesis by simp
  next
    case False
    then have "count_list (snd (attempts svc k 1 n)) (Query key) = 0"
      by (simp add: attempts_other)
    with Cons False show ?thesis by simp
  qed
qed

lemma distinct_missing: "distinct (missing_keys cache keys)"
  by (simp add: missing_keys_def drop_duplicates_def)

lemma set_missing: "set (missing_keys cache keys) = {key \<in> set keys. \<not> cache_has cache key}"
  by (auto simp: missing_keys_def drop_duplicates_def)


text \<open>
  C8. For every table with coordinate columns, every elevation service, every loaded
  cache and every retry count, the resolver returns a result (no failure of the service
  leaves it) with one elevation per row. The keys it queries are the distinct rounded
  coordinates that are not in the cache, each handled once, so rows that round to one
  key add no queries. The log is, key after key, the attempts for that key followed by
  the pause; the attempts for a key are the failed queries, each followed by a sleep of
  0.4 times the attempt number, and then the successful query if one came within the
  retry count. So every key is queried at most \<open>max_retries\<close> times in the batch; a
  cached key or a key that is not in the table is never queried; a key whose first query
  succeeds is queried exactly once; and a key whose attempts all fail is queried
  \<open>max_retries\<close> times, stored as NaN in the cache, and gives NaN in each of its rows.
\<close>

theorem elevation_resolver_bounded_queries:
  "\<exists>res. add_elevation_column svc (Some pts) round_decimals sleep_s cache0 max_retries = Inr res
     \<and> length (elevation_m res) = length pts
     \<and> distinct (missing_keys cache0 (rounded_keys round_decimals pts))
     \<and> io_log res
         = concat (map (\<lambda>key. snd (attempts svc key 1 (nat max_retries)) @ [Sleep sleep_s])
                       (missing_keys cache0 (rounded_keys round_decimals pts)))
     \<and> (\<forall>key. snd (attempts svc key 1 (nat max_retries))
           = concat (map (\<lambda>j. [Query key, Sleep (0.4 * real j)])
                         [1..<1 + failed_attempts svc key 1 (nat max_retries)])
             @ (if failed_attempts svc key 1 (nat max_retries) < nat max_retries
                then [Query key] else []))
     \<and> (\<forall>key. count_list (io_log res) (Query key) \<le> nat max_retries
          \<and> (key \<notin> set (rounded_keys round_decimals pts) \<or> cache_has cache0 key
                \<longrightarrow> count_list (io_log res) (Query key) = 0)
          \<and> (key \<in> set (rounded_keys round_decimals pts) \<and> \<not> cache_has cache0 key
                \<and> 1 \<le> max_retries \<and> svc key 1 \<noteq> None
                \<longrightarrow> count_list (io_log res) (Query key) = 1)
          \<and> (key \<in> set (rounded_keys round_decimals pts) \<and> \<not> cache_has cache0 key
                \<and> (\<forall>j. 1 \<le> j \<and> j \<le> nat max_retries \<longrightarrow> svc key j = None)
                \<longrightarrow> count_list (io_log res) (Query key) = nat max_retries
                    \<and> cache_out res key = Some NaN
                    \<and> (\<forall>i<length pts. rounded_keys round_decimals pts ! i = key
                          \<longrightarrow> elevation_m res ! i = NaN)))"
proof -
  define keys where "keys = rounded_keys round_decimals pts"
  define missing where "missing = missing_keys cache0 keys"
  define n where "n = nat max_retries"
  define final where "final = fold (resolve_point svc max_retries sleep_s) missing (cache0, [])"
  define res where
    "res = \<lparr> elevation_m = map (cache_get (fst final)) keys, cache_out = fst final,
              io_log = snd final \<rparr>"
  have r: "add_elevation_column svc (Some pts) round_decimals sleep_s cache0 max_retries = Inr res"
    by (simp add: add_elevation_column_def Let_def res_def final_def missing_def keys_def
        split: prod.splits)
  have lk: "length keys = length pts" by (simp add: keys_def rounded_keys_def)
  have len: "length (elevation_m res) = length pts" by (simp add: res_def lk)
  have dm: "distinct missing" unfolding missing_def by (rule distinct_missing)
  have sm: "set missing = {key \<in> set keys. \<not> cache_has cache0 key}"
    unfolding missing_def by (rule set_missing)
  have lg: "io_log res
      = concat (map (\<lambda>key. snd (attempts svc key 1 n) @ [Sleep sleep_s]) missing)"
    using fold_resolve_log [of svc max_retries sleep_s missing cache0 "[]"]
    by (simp add: res_def final_def n_def)
  have ch: "\<And>key. cache_out res key
      = (if key \<in> set missing
         then Some (case fst (attempts svc key 1 n) of Some e \<Rightarrow> e | None \<Rightarrow> NaN)
         else cache0 key)"
    using fold_resolve_cache [of svc max_retries sleep_s missing cache0 "[]"]
    by (simp add: res_def final_def n_def)
  have cnt: "\<And>key. count_list (io_log res) (Query key)
      = (if key \<in> set missing then count_list (snd (attempts svc key 1 n)) (Query key) else 0)"
    unfolding lg by (rule count_blocks [OF dm])
  have shape: "\<forall>key. snd (attempts svc key 1 n)
           = concat (map (\<lambda>j. [Query key, Sleep (0.4 * real j)])
                         [1..<1 + failed_attempts svc key 1 n])
             @ (if failed_attempts svc key 1 n < n then [Query key] else [])"
    by (intro allI attempts_shape)
  have per: "\<forall>key. count_list (io_log res) (Query key) \<le> n
          \<and> (key \<notin> set keys \<or> cache_has cache0 key
                \<longrightarrow> count_list (io_log res) (Query key) = 0)
          \<and> (key \<in> set keys \<and> \<not> cache_has cache0 key \<and> 1 \<le> max_retries \<and> svc key 1 \<noteq> None
                \<longrightarrow> count_list (io_log res) (Query key) = 1)
          \<and> (key \<in> set keys \<and> \<not> cache_has cache0 key
                \<and> (\<forall>j. 1 \<le> j \<and> j \<le> n \<longrightarrow> svc key j = None)
                \<longrightarrow> count_list (io_log res) (Query key) = n
                    \<and> cache_out res key = Some NaN
                    \<and> (\<forall>i<length pts. keys ! i = key \<longrightarrow> elevation_m res ! i = NaN))"
  proof
    fix key
    have p1: "count_list (io_log res) (Query key) \<le> n"
      unfolding cnt using attempts_le [of svc key 1 n] by simp
    have p2: "count_list (io_log res) (Query key) = 0"
      if "key \<notin> set keys \<or> cache_has cache0 key"
      unfolding cnt using that sm by auto
    have p3: "count_list (io_log res) (Query key) = 1"
      if "key \<in> set keys \<and> \<not> cache_has cache0 key \<and> 1 \<le> max_retries \<and> svc key 1 \<noteq> None"
    proof -
      from that obtain m where m: "n = Suc m" unfolding n_def by (cases "nat max_retries") auto
      from that sm have "key \<in> set missing" by simp
      with that show ?thesis unfolding cnt m by (simp add: attempts_first_ok del: attempts.simps)
    qed
    have p4: "count_list (io_log res) (Query key) = n
                    \<and> cache_out res key = Some NaN
                    \<and> (\<forall>i<length pts. keys ! i = key \<longrightarrow> elevation_m res ! i = NaN)"
      if a: "key \<in> set keys \<and> \<not> cache_has cache0 key
                \<and> (\<forall>j. 1 \<le> j \<and> j \<le> n \<longrightarrow> svc key j = None)"
    proof -
      from a have km: "key \<in> set missing" using sm by simp
      from a have "\<forall>j. 1 \<le> j \<and> j < 1 + n \<longrightarrow> svc key j = None" by simp
      with attempts_all_fail [of 1 n svc key] have
        c: "count_list (snd (attempts svc key 1 n)) (Query key) = n"
        and f: "fst (attempts svc key 1 n) = None" by simp_all
      have q1: "count_list (io_log res) (Query key) = n" unfolding cnt using km c by simp
      have co: "cache_out res key = Some NaN" unfolding ch using km f by simp
      have q3: "\<forall>i<length pts. keys ! i = key \<longrightarrow> elevation_m res ! i = NaN"
      proof (intro allI impI)
        fix i assume "i < length pts" and "keys ! i = key"
        then have "elevation_m res ! i = cache_get (cache_out res) key"
          using lk by (simp add: res_def)
        also have "\<dots> = NaN" by (simp add: cache_get_def co)
        finally show "elevation_m res ! i = NaN" .
      qed
      from q1 co q3 show ?thesis by blast
    qed
    from p1 p2 p3 p4
    show "count_list (io_log res) (Query key) \<le> n
          \<and> (key \<notin> set keys \<or> cache_has cache0 key
                \<longrightarrow> count_list (io_log res) (Query key) = 0)
          \<and> (key \<in> set keys \<and> \<not> cache_has cache0 key \<and> 1 \<le> max_retries \<and> svc key 1 \<noteq> None
                \<longrightarrow> count_list (io_log res) (Query key) = 1)
          \<and> (key \<in> set keys \<and> \<not> cache_has cache0 key
                \<and> (\<forall>j. 1 \<le> j \<and> j \<le> n \<longrightarrow> svc key j = None)
                \<longrightarrow> count_list (io_log res) (Query key) = n
                    \<and> cache_out res key = Some NaN
                    \<and> (\<forall>i<length pts. keys ! i = key \<longrightarrow> elevation_m res ! i = NaN))"
      by blast
  qed
  from r len dm lg shape per show ?thesis
    unfolding missing_def keys_def n_def by blast
qed

lemma demo_keys: "rounded_keys 5 demo_points = [(Fin 36, Fin (-97)), (Fin 36, Fin (-97))]"
  by (simp add: rounded_keys_def demo_points_def np_round_def round_half_even_def Let_def)

theorem elevation_resolver_bounded_queries_witness:
  "(\<exists>res. add_elevation_column svc_up (Some demo_points) 5 0.12 Map.empty 3 = Inr res
      \<and> count_list (io_log res) (Query (Fin 36, Fin (-97))) = 1)
   \<and> (\<exists>res. add_elevation_column svc_down (Some demo_points) 5 0.12 Map.empty 3 = Inr res
      \<and> count_list (io_log res) (Query (Fin 36, Fin (-97))) = 3
      \<and> cache_out res (Fin 36, Fin (-97)) = Some NaN
      \<and> elevation_m res ! 0 = NaN \<and> elevation_m res ! 1 = NaN)
   \<and> (\<exists>res. add_elevation_column svc_down (Some demo_points) 5 0.12
               [(Fin 36, Fin (-97)) \<mapsto> Fin 280] 3 = Inr res
      \<and> count_list (io_log res) (Query (Fin 36, Fin (-97))) = 0)"
proof -
  have k: "(Fin 36, Fin (-97)) \<in> set (rounded_keys 5 demo_points)"
    by (simp add: demo_keys)
  have n0: "\<not> cache_has Map.empty (Fin 36, Fin (-97))" by (simp add: cache_has_def)
  have c0: "cache_has [(Fin 36, Fin (-97)) \<mapsto> Fin 280] (Fin 36, Fin (-97))"
    by (simp add: cache_has_def)
  have up: "svc_up (Fin 36, Fin (-97)) 1 \<noteq> None" by (simp add: svc_up_def)
  have down: "\<forall>j. 1 \<le> j \<and> j \<le> nat 3 \<longrightarrow> svc_down (Fin 36, Fin (-97)) j = None"
    by (simp add: svc_down_def)
  have l: "length demo_points = 2" by (simp add: demo_points_def)
  have i: "rounded_keys 5 demo_points ! 0 = (Fin 36, Fin (-97))"
    "rounded_keys 5 demo_points ! 1 = (Fin 36, Fin (-97))"
    by (simp_all add: demo_keys)
  have w1: "\<exists>res. add_elevation_column svc_up (Some demo_points) 5 0.12 Map.empty 3 = Inr res
      \<and> count_list (io_log res) (Query (Fin 36, Fin (-97))) = 1"
    using elevation_resolver_bounded_queries [of svc_up demo_points 5 "0.12" Map.empty 3] k n0 up
    by auto
  have w2: "\<exists>res. add_elevation_column svc_down (Some demo_points) 5 0.12 Map.empty 3 = Inr res
      \<and> count_list (io_log res) (Query (Fin 36, Fin (-97))) = 3
      \<and> cache_out res (Fin 36, Fin (-97)) = Some NaN
      \<and> elevation_m res ! 0 = NaN \<and> elevation_m res ! 1 = NaN"
  proof -
    from elevation_resolver_bounded_queries [of svc_down demo_points 5 "0.12" Map.empty 3]
    obtain res where
      r: "add_elevation_column svc_down (Some demo_points) 5 0.12 Map.empty 3 = Inr res"
      and p: "\<forall>key. count_list (io_log res) (Query key) \<le> nat 3
          \<and> (key \<notin> set (rounded_keys 5 demo_points) \<or> cache_has Map.empty key
                \<longrightarrow> count_list (io_log res) (Query key) = 0)
          \<and> (key \<in> set (rounded_keys 5 demo_points) \<and> \<not> cache_has Map.empty key
                \<and> 1 \<le> (3::int) \<and> svc_down key 1 \<noteq> None
                \<longrightarrow> count_list (io_log res) (Query key) = 1)
          \<and> (key \<in> set (rounded_keys 5 demo_points) \<and> \<not> cache_has Map.empty key
                \<and> (\<forall>j. 1 \<le> j \<and> j \<le> nat 3 \<longrightarrow> svc_down key j = None)
                \<longrightarrow> count_list (io_log res) (Query key) = nat 3
                    \<and> cache_out res key = Some NaN
                    \<and> (\<forall>i<length demo_points. rounded_keys 5 demo_points ! i = key
                          \<longrightarrow> elevation_m res ! i = NaN))"
      by blast
    from p k n0 down have
      "count_list (io_log res) (Query (Fin 36, Fin (-97))) = nat 3
         \<and> cache_out res (Fin 36, Fin (-97)) = Some NaN
         \<and> (\<forall>i<length demo_points. rounded_keys 5 demo_points ! i = (Fin 36, Fin (-97))
                \<longrightarrow> elevation_m res ! i = NaN)"
      by blast
    with r l i show ?thesis by auto
  qed
  have w3: "\<exists>res. add_elevation_column svc_down (Some demo_points) 5 0.12
               [(Fin 36, Fin (-97)) \<mapsto> Fin 280] 3 = Inr res
      \<and> count_list (io_log res) (Query (Fin 36, Fin (-97))) = 0"
    using elevation_resolver_bounded_queries
            [of svc_down demo_points 5 "0.12" "[(Fin 36, Fin (-97)) \<mapsto> Fin 280]" 3] c0
    by auto
  from w1 w2 w3 show ?thesis by blast
qed


end
